theory Spec2Isabelle
  imports Main "HOL-Library.Word"
begin

section \<open>py-radix: the Python binding of the radix tree (radix\_python.c)\<close>

text \<open>
  The development embeds \<^verbatim>\<open>radix_python.c\<close>: the objects \<^verbatim>\<open>RadixNodeObject\<close>,
  \<^verbatim>\<open>RadixObject\<close> and \<^verbatim>\<open>RadixIterObject\<close>, and the methods \<^verbatim>\<open>Radix_add\<close>,
  \<^verbatim>\<open>Radix_delete\<close>, \<^verbatim>\<open>Radix_search_exact\<close>, \<^verbatim>\<open>Radix_search_best\<close>, \<^verbatim>\<open>Radix_nodes\<close>,
  \<^verbatim>\<open>Radix_prefixes\<close>, \<^verbatim>\<open>newRadixIterObject\<close>, \<^verbatim>\<open>RadixIter_dealloc\<close> and
  \<^verbatim>\<open>RadixIter_iternext\<close>.

  The engine these methods call (\<^verbatim>\<open>radix.h\<close>, \<^verbatim>\<open>radix.c\<close>: \<^verbatim>\<open>radix_lookup\<close>,
  \<^verbatim>\<open>radix_search_exact\<close>, \<^verbatim>\<open>radix_search_best\<close>, \<^verbatim>\<open>radix_remove\<close>, \<^verbatim>\<open>RADIX_WALK\<close>,
  \<^verbatim>\<open>RADIX_MAXBITS\<close>) is not part of the file; those definitions follow the written
  specification and say so. The parsers and printers of addresses
  (\<^verbatim>\<open>prefix_pton\<close>, \<^verbatim>\<open>prefix_from_blob\<close>, \<^verbatim>\<open>prefix_ntop\<close>, \<^verbatim>\<open>prefix_addr_ntop\<close>) are
  parameters of the model.

  Conventions.
  \<^item> A pointer to a tree node is modelled by the node it points to; where the C code
    writes through such a pointer (\<^verbatim>\<open>node->data = node_obj\<close>, \<^verbatim>\<open>radix_remove\<close>), the
    model finds the node again by its prefix. An iterator holds the subtrees its
    pointers point to, as they were when it was made; they are the nodes of the tree
    for as long as the tree is the one the iterator was made on.
  \<^item> A pointer to a \<^verbatim>\<open>RadixNodeObject\<close> is its index in the store \<open>objs\<close>.
  \<^item> Memory allocation always succeeds. The reference counts of node objects are not
    modelled (objects stay in the store); the reference count of the tree object is.
  \<^item> A method takes the parsed arguments (\<^verbatim>\<open>PyArg_ParseTupleAndKeywords\<close> has
    succeeded) and the state, and returns its result, \<open>Inl\<close> for a raised exception,
    and the state it leaves.

  The results on trees hold for the states of the invariant \<open>state_inv\<close>; the lemma
  \<open>state_inv_reachable\<close> shows that every state reached from a new tree by calls
  of \<^verbatim>\<open>add\<close> and \<^verbatim>\<open>delete\<close> is one, when the parsers return valid prefixes.
\<close>

subsection \<open>Prefixes\<close>

type_synonym byte = "8 word"

datatype family_t = AF_INET | AF_INET6

record prefix_t =
  family :: family_t
  bitlen :: nat
  add :: "byte list"

text \<open>Modelled from the spec: the bit width of a family (32 for IPv4, 128 for IPv6);
  \<^verbatim>\<open>radix.h\<close> is missing.\<close>

definition maxbits :: "family_t \<Rightarrow> nat" where
  "maxbits f = (case f of AF_INET \<Rightarrow> 32 | AF_INET6 \<Rightarrow> 128)"

text \<open>Modelled from the spec: \<^verbatim>\<open>RADIX_MAXBITS\<close> of the missing \<^verbatim>\<open>radix.h\<close>, the
  maximal bit width of an address.\<close>

definition RADIX_MAXBITS :: nat where
  "RADIX_MAXBITS = 128"

text \<open>Modelled from the spec: bit \<open>i\<close> of an address, counted from the most significant
  bit of the first byte (the missing \<^verbatim>\<open>BIT_TEST(addr[i >> 3], 0x80 >> (i & 7))\<close>). A
  position past the last byte reads as 0.\<close>

definition addr_bit :: "byte list \<Rightarrow> nat \<Rightarrow> bool" where
  "addr_bit a i = (i div 8 < length a \<and> bit (a ! (i div 8)) (7 - i mod 8))"

text \<open>Modelled from the spec: the first \<open>n\<close> bits of two addresses match (the missing
  \<^verbatim>\<open>comp_with_mask\<close>).\<close>

definition comp_with_mask :: "byte list \<Rightarrow> byte list \<Rightarrow> nat \<Rightarrow> bool" where
  "comp_with_mask a b n = list_all (\<lambda>i. addr_bit a i = addr_bit b i) [0..<n]"

text \<open>Modelled from the spec (section 3): two prefixes are equal iff family, bitlen and
  the significant bits match.\<close>

definition prefix_eq :: "prefix_t \<Rightarrow> prefix_t \<Rightarrow> bool" where
  "prefix_eq q p =
     (family q = family p \<and> bitlen q = bitlen p \<and> comp_with_mask (add q) (add p) (bitlen p))"

text \<open>Modelled from the spec (section 4.5): the stored prefix \<open>q\<close> contains the query \<open>p\<close>
  when the significant bits of \<open>q\<close> are a prefix of the address of \<open>p\<close>.\<close>

definition prefix_contains :: "prefix_t \<Rightarrow> prefix_t \<Rightarrow> bool" where
  "prefix_contains q p = (bitlen q \<le> bitlen p \<and> comp_with_mask (add q) (add p) (bitlen q))"

text \<open>Modelled from the spec (section 4.5, "the most specific previously inserted
  network containing A"): the stored network \<open>q\<close> contains the query \<open>p\<close> when both are
  of one family and the significant bits of \<open>q\<close> are a prefix of the address of \<open>p\<close>.\<close>

definition network_contains :: "prefix_t \<Rightarrow> prefix_t \<Rightarrow> bool" where
  "network_contains q p = (family q = family p \<and> prefix_contains q p)"

text \<open>Modelled from the spec (sections 3 and 4.1): a valid prefix has an address of its
  family's width, a bit length within that width, and is canonical: the bits that are
  not significant are 0.\<close>

definition valid_prefix :: "prefix_t \<Rightarrow> bool" where
  "valid_prefix p =
     (8 * length (add p) = maxbits (family p) \<and> bitlen p \<le> maxbits (family p) \<and>
      list_all (\<lambda>i. \<not> addr_bit (add p) i) [bitlen p..<maxbits (family p)])"

subsection \<open>Tree nodes and the engine\<close>

text \<open>\<^verbatim>\<open>radix_node_t\<close>: the bit position tested, the prefix (absent in a glue node), the
  children \<^verbatim>\<open>l\<close> and \<^verbatim>\<open>r\<close>, and \<^verbatim>\<open>data\<close>, the node object (an index into the store).
  \<open>NULL\<close> is the null pointer.\<close>

datatype radix_node =
  NULL
  | Node nat "prefix_t option" radix_node radix_node "nat option"

fun node_bit :: "radix_node \<Rightarrow> nat" where
  "node_bit NULL = 0"
| "node_bit (Node b pfx l r dat) = b"

fun node_prefix :: "radix_node \<Rightarrow> prefix_t option" where
  "node_prefix NULL = None"
| "node_prefix (Node b pfx l r dat) = pfx"

fun node_data :: "radix_node \<Rightarrow> nat option" where
  "node_data NULL = None"
| "node_data (Node b pfx l r dat) = dat"

text \<open>Modelled from the spec: \<^verbatim>\<open>radix_tree_t\<close> of the missing \<^verbatim>\<open>radix.h\<close>, the root
  and the count of stored prefixes.\<close>

record radix_tree_t =
  head :: radix_node
  count :: int

text \<open>Modelled from the spec: \<^verbatim>\<open>New_Radix\<close> of the missing \<^verbatim>\<open>radix.c\<close>.\<close>

definition New_Radix :: radix_tree_t where
  "New_Radix = \<lparr>head = NULL, count = 0\<rparr>"

text \<open>Modelled from the spec (section 4.4): \<^verbatim>\<open>radix_search_exact\<close> of the missing
  \<^verbatim>\<open>radix.c\<close>. It walks by the bits of the query and matches only a data node whose
  prefix equals the query in family, bitlen and significant bits.\<close>

fun search_exact_node :: "radix_node \<Rightarrow> prefix_t \<Rightarrow> radix_node" where
  "search_exact_node NULL p = NULL"
| "search_exact_node (Node b pfx l r dat) p =
     (if b < bitlen p then search_exact_node (if addr_bit (add p) b then r else l) p
      else (case pfx of
              None \<Rightarrow> NULL
            | Some q \<Rightarrow> if prefix_eq q p then Node b pfx l r dat else NULL))"

definition radix_search_exact :: "radix_tree_t \<Rightarrow> prefix_t \<Rightarrow> radix_node" where
  "radix_search_exact t p = search_exact_node (head t) p"

text \<open>Modelled from the spec (section 4.5): \<^verbatim>\<open>radix_search_best\<close> of the missing
  \<^verbatim>\<open>radix.c\<close>. It walks along the bits of the query and remembers the last data node
  passed whose prefix contains the query and is at least as long as the best so far.\<close>

fun search_best_node :: "radix_node \<Rightarrow> prefix_t \<Rightarrow> radix_node \<Rightarrow> radix_node" where
  "search_best_node NULL p best = best"
| "search_best_node (Node b pfx l r dat) p best =
     (let best' =
        (case pfx of
           None \<Rightarrow> best
         | Some q \<Rightarrow>
             if prefix_contains q p \<and>
                (case node_prefix best of None \<Rightarrow> True | Some q0 \<Rightarrow> bitlen q0 \<le> bitlen q)
             then Node b pfx l r dat else best)
      in if b < bitlen p then search_best_node (if addr_bit (add p) b then r else l) p best'
         else best')"

definition radix_search_best :: "radix_tree_t \<Rightarrow> prefix_t \<Rightarrow> radix_node" where
  "radix_search_best t p = search_best_node (head t) p NULL"

text \<open>Modelled from the spec (section 4.2): \<^verbatim>\<open>radix_lookup\<close> of the missing
  \<^verbatim>\<open>radix.c\<close>, in three steps. First the walk from the root by the bits of the new
  prefix, down to a data node to compare with.\<close>

fun lookup_descend :: "radix_node \<Rightarrow> prefix_t \<Rightarrow> radix_node" where
  "lookup_descend NULL p = NULL"
| "lookup_descend (Node b pfx l r dat) p =
     (if b < bitlen p \<or> pfx = None then
        (let c = (if addr_bit (add p) b then r else l)
         in if c = NULL then Node b pfx l r dat else lookup_descend c p)
      else Node b pfx l r dat)"

text \<open>Second, the divergence point: the first bit below \<open>check_bit\<close> at which the two
  addresses differ, or \<open>check_bit\<close>.\<close>

definition differ_bit :: "byte list \<Rightarrow> byte list \<Rightarrow> nat \<Rightarrow> nat" where
  "differ_bit a ta check_bit =
     (case find (\<lambda>i. addr_bit a i \<noteq> addr_bit ta i) [0..<check_bit] of
        None \<Rightarrow> check_bit
      | Some i \<Rightarrow> i)"

text \<open>Third, the change at the divergence point \<open>d\<close>, on the path of the new prefix:
  the existing node when it has this bit length (a glue node there gets the prefix),
  a new leaf below a node that tests bit \<open>d\<close>, a new node above a node with a longer
  test position, or a glue node at \<open>d\<close> over the new leaf and the existing node.
  The result is the new subtree, the node for the prefix, and whether a prefix was added.\<close>

fun lookup_place ::
  "radix_node \<Rightarrow> prefix_t \<Rightarrow> byte list \<Rightarrow> nat \<Rightarrow> radix_node \<times> radix_node \<times> bool" where
  "lookup_place NULL p ta d =
     (let new_node = Node (bitlen p) (Some p) NULL NULL None in (new_node, new_node, True))"
| "lookup_place (Node b pfx l r dat) p ta d =
     (if b < d then
        (if addr_bit (add p) b
         then (case lookup_place r p ta d of (r', res) \<Rightarrow> (Node b pfx l r' dat, res))
         else (case lookup_place l p ta d of (l', res) \<Rightarrow> (Node b pfx l' r dat, res)))
      else if d = bitlen p \<and> b = bitlen p then
        (case pfx of
           None \<Rightarrow> (Node b (Some p) l r dat, Node b (Some p) l r dat, True)
         | Some q \<Rightarrow> (Node b pfx l r dat, Node b pfx l r dat, False))
      else
        (let new_node = Node (bitlen p) (Some p) NULL NULL None in
         if b = d then
           (if addr_bit (add p) b then (Node b pfx l new_node dat, new_node, True)
            else (Node b pfx new_node r dat, new_node, True))
         else if bitlen p = d then
           (let above = (if addr_bit ta (bitlen p)
                         then Node (bitlen p) (Some p) NULL (Node b pfx l r dat) None
                         else Node (bitlen p) (Some p) (Node b pfx l r dat) NULL None)
            in (above, above, True))
         else
           (if addr_bit (add p) d then (Node d None (Node b pfx l r dat) new_node None, new_node, True)
            else (Node d None new_node (Node b pfx l r dat) None, new_node, True))))"

text \<open>The result is \<open>None\<close> (the C function's \<^verbatim>\<open>NULL\<close>) when the walk ends in a node
  without a prefix to compare with.\<close>

definition radix_lookup :: "radix_tree_t \<Rightarrow> prefix_t \<Rightarrow> (radix_tree_t \<times> radix_node) option" where
  "radix_lookup t p =
     (if head t = NULL then
        (let node = Node (bitlen p) (Some p) NULL NULL None
         in Some (t\<lparr>head := node, count := count t + 1\<rparr>, node))
      else
        (case lookup_descend (head t) p of
           NULL \<Rightarrow> None
         | Node nb None nl nr nd \<Rightarrow> None
         | Node nb (Some tp) nl nr nd \<Rightarrow>
             (let d = differ_bit (add p) (add tp) (min nb (bitlen p))
              in (case lookup_place (head t) p (add tp) d of
                    (h', node, created) \<Rightarrow>
                      Some (t\<lparr>head := h', count := (if created then count t + 1 else count t)\<rparr>,
                            node)))))"

text \<open>Modelled from the spec (section 4.3): \<^verbatim>\<open>radix_remove\<close> of the missing \<^verbatim>\<open>radix.c\<close>.
  A node with two children stays as a glue node, a node with one child is replaced by
  it, a leaf is cut off; a glue node left with one child is replaced by that child.\<close>

fun compact :: "radix_node \<Rightarrow> radix_node" where
  "compact NULL = NULL"
| "compact (Node b pfx l r dat) =
     (if pfx = None \<and> l = NULL then r
      else if pfx = None \<and> r = NULL then l
      else Node b pfx l r dat)"

fun remove_node :: "radix_node \<Rightarrow> prefix_t \<Rightarrow> radix_node" where
  "remove_node NULL p = NULL"
| "remove_node (Node b pfx l r dat) p =
     (if b < bitlen p then
        (if addr_bit (add p) b then compact (Node b pfx l (remove_node r p) dat)
         else compact (Node b pfx (remove_node l p) r dat))
      else (case pfx of
              None \<Rightarrow> Node b pfx l r dat
            | Some q \<Rightarrow>
                if prefix_eq q p then
                  (if l \<noteq> NULL \<and> r \<noteq> NULL then Node b None l r None
                   else if r \<noteq> NULL then r
                   else l)
                else Node b pfx l r dat))"

definition radix_remove :: "radix_tree_t \<Rightarrow> radix_node \<Rightarrow> radix_tree_t" where
  "radix_remove t node =
     (case node_prefix node of
        None \<Rightarrow> t
      | Some q \<Rightarrow> t\<lparr>head := remove_node (head t) q, count := count t - 1\<rparr>)"

text \<open>Modelled from the spec (section 4.6): the order of the missing \<^verbatim>\<open>RADIX_WALK\<close>,
  every node before its left and then its right subtree.\<close>

fun radix_walk :: "radix_node \<Rightarrow> radix_node list" where
  "radix_walk NULL = []"
| "radix_walk (Node b pfx l r dat) = Node b pfx l r dat # radix_walk l @ radix_walk r"

text \<open>The write \<^verbatim>\<open>node->data = node_obj\<close> through the pointer that \<^verbatim>\<open>radix_lookup\<close>
  returned for the prefix \<open>p\<close>.\<close>

fun set_node_data :: "radix_node \<Rightarrow> prefix_t \<Rightarrow> nat option \<Rightarrow> radix_node" where
  "set_node_data NULL p v = NULL"
| "set_node_data (Node b pfx l r dat) p v =
     (if b < bitlen p then
        (if addr_bit (add p) b then Node b pfx l (set_node_data r p v) dat
         else Node b pfx (set_node_data l p v) r dat)
      else (case pfx of
              None \<Rightarrow> Node b pfx l r dat
            | Some q \<Rightarrow> if prefix_eq q p then Node b pfx l r v else Node b pfx l r dat))"

subsection \<open>The Python objects\<close>

text \<open>Exceptions carry their message. \<open>SystemError\<close> is what the interpreter raises
  when a method returns \<^verbatim>\<open>NULL\<close> without setting an exception; \<open>BufferOverrun\<close>
  stands for a write past the end of the iterator's fixed stack array, which the C code
  does not check.\<close>

datatype py_error =
  TypeError string
  | ValueError string
  | MemoryError string
  | KeyError string
  | RuntimeWarning string
  | SystemError
  | BufferOverrun

text \<open>\<^verbatim>\<open>RadixNodeObject\<close>. The field \<^verbatim>\<open>family\<close> is \<open>node_family\<close> here; \<open>rn\<close>, the
  pointer back to the tree node, is the prefix of that node, \<open>None\<close> for \<^verbatim>\<open>NULL\<close>.\<close>

record RadixNodeObject =
  user_attr :: "(string \<times> string) list"
  network :: string
  prefix :: string
  prefixlen :: int
  node_family :: family_t
  packed :: "byte list"
  rn :: "prefix_t option"

text \<open>\<^verbatim>\<open>RadixObject\<close>. The field \<^verbatim>\<open>family\<close> is \<open>tree_family\<close> here, \<open>None\<close> for -1;
  \<open>gen_id\<close> is an \<^verbatim>\<open>unsigned int\<close>, 32 bits wide, and \<^verbatim>\<open>gen_id++\<close> wraps around;
  \<open>ob_refcnt\<close> is the reference count of \<^verbatim>\<open>PyObject_HEAD\<close>.\<close>

record RadixObject =
  ob_refcnt :: nat
  rt :: radix_tree_t
  tree_family :: "family_t option"
  gen_id :: "32 word"

text \<open>The state a method works on: the tree object and the store of node objects.\<close>

record pystate =
  radix :: RadixObject
  objs :: "RadixNodeObject list"

text \<open>The arguments after \<^verbatim>\<open>PyArg_ParseTupleAndKeywords\<close>: \<^verbatim>\<open>addr\<close>, \<^verbatim>\<open>packed\<close> (with its
  length) and \<^verbatim>\<open>prefixlen\<close>, -1 when not given.\<close>

record args =
  arg_addr :: "string option"
  arg_packed :: "byte list option"
  arg_prefixlen :: int

text \<open>The functions of the missing \<^verbatim>\<open>radix.c\<close> that parse and print addresses, taken
  as parameters.\<close>

record radix_h =
  prefix_pton :: "string \<Rightarrow> int \<Rightarrow> prefix_t option"
  prefix_from_blob :: "byte list \<Rightarrow> nat \<Rightarrow> int \<Rightarrow> prefix_t option"
  prefix_ntop :: "prefix_t \<Rightarrow> string"
  prefix_addr_ntop :: "prefix_t \<Rightarrow> string"

definition newRadixNodeObject :: "radix_h \<Rightarrow> radix_node \<Rightarrow> RadixNodeObject option" where
  "newRadixNodeObject lib node =
     (case node of
        NULL \<Rightarrow> None
      | Node b None l r dat \<Rightarrow> None
      | Node b (Some q) l r dat \<Rightarrow>
          Some \<lparr>user_attr = [],
                network = prefix_addr_ntop lib q,
                prefix = prefix_ntop lib q,
                prefixlen = int (bitlen q),
                node_family = family q,
                packed = take (if family q = AF_INET then 4 else 16) (add q),
                rn = Some q\<rparr>)"

definition newRadixObject :: RadixObject where
  "newRadixObject = \<lparr>ob_refcnt = 1, rt = New_Radix, tree_family = None, gen_id = 0\<rparr>"

definition radix_Radix :: pystate where
  "radix_Radix = \<lparr>radix = newRadixObject, objs = []\<rparr>"

definition args_to_prefix :: "radix_h \<Rightarrow> args \<Rightarrow> py_error + prefix_t" where
  "args_to_prefix lib a =
     (case (arg_addr a, arg_packed a) of
        (Some s, Some b) \<Rightarrow> Inl (TypeError ''Two address types specified. Please pick one.'')
      | (None, None) \<Rightarrow> Inl (TypeError ''No address specified (use 'address' or 'packed')'')
      | (Some s, None) \<Rightarrow>
          (case prefix_pton lib s (arg_prefixlen a) of
             None \<Rightarrow> Inl (ValueError ''Invalid address format'')
           | Some p \<Rightarrow> Inr p)
      | (None, Some b) \<Rightarrow>
          (case prefix_from_blob lib b (length b) (arg_prefixlen a) of
             None \<Rightarrow> Inl (ValueError ''Invalid packed address format'')
           | Some p \<Rightarrow> Inr p))"

text \<open>\<^verbatim>\<open>Radix_add\<close> from the call of \<^verbatim>\<open>radix_lookup\<close> on (lines 288 to 310).\<close>

definition Radix_add_node :: "radix_h \<Rightarrow> prefix_t \<Rightarrow> pystate \<Rightarrow> (py_error + nat) \<times> pystate" where
  "Radix_add_node lib p s =
     (case radix_lookup (rt (radix s)) p of
        None \<Rightarrow> (Inl (MemoryError ''Couldn't add prefix''), s)
      | Some (t', node) \<Rightarrow>
          (let s1 = s\<lparr>radix := (radix s)\<lparr>rt := t'\<rparr>\<rparr> in
           case node_data node of
             None \<Rightarrow>
               (case newRadixNodeObject lib node of
                  None \<Rightarrow> (Inl SystemError, s1)
                | Some node_obj \<Rightarrow>
                    (let k = length (objs s1) in
                     (Inr k,
                      s1\<lparr>objs := objs s1 @ [node_obj],
                         radix := (radix s1)
                           \<lparr>rt := t'\<lparr>head := set_node_data (head t') p (Some k)\<rparr>,
                            gen_id := gen_id (radix s1) + 1\<rparr>\<rparr>)))
           | Some k \<Rightarrow> (Inr k, s1\<lparr>radix := (radix s1)\<lparr>gen_id := gen_id (radix s1) + 1\<rparr>\<rparr>)))"

definition Radix_add :: "radix_h \<Rightarrow> args \<Rightarrow> pystate \<Rightarrow> (py_error + nat) \<times> pystate" where
  "Radix_add lib a s =
     (case args_to_prefix lib a of
        Inl e \<Rightarrow> (Inl e, s)
      | Inr p \<Rightarrow>
          if tree_family (radix s) = None then
            Radix_add_node lib p (s\<lparr>radix := (radix s)\<lparr>tree_family := Some (family p)\<rparr>\<rparr>)
          else if Some (family p) \<noteq> tree_family (radix s) then
            (Inl (ValueError ''Mixing IPv4 and IPv6 in a single tree is not supported''), s)
          else Radix_add_node lib p s)"

definition Radix_delete :: "radix_h \<Rightarrow> args \<Rightarrow> pystate \<Rightarrow> (py_error + unit) \<times> pystate" where
  "Radix_delete lib a s =
     (case args_to_prefix lib a of
        Inl e \<Rightarrow> (Inl e, s)
      | Inr p \<Rightarrow>
          (let node = radix_search_exact (rt (radix s)) p in
           if node = NULL then (Inl (KeyError ''no such address''), s)
           else
             (let objs' = (case node_data node of
                             None \<Rightarrow> objs s
                           | Some k \<Rightarrow> (objs s)[k := (objs s ! k)\<lparr>rn := None\<rparr>])
              in (Inr (),
                  s\<lparr>objs := objs',
                    radix := (radix s)\<lparr>rt := radix_remove (rt (radix s)) node,
                                       gen_id := gen_id (radix s) + 1\<rparr>\<rparr>))))"

definition Radix_search_exact ::
  "radix_h \<Rightarrow> args \<Rightarrow> pystate \<Rightarrow> (py_error + nat option) \<times> pystate" where
  "Radix_search_exact lib a s =
     (case args_to_prefix lib a of
        Inl e \<Rightarrow> (Inl e, s)
      | Inr p \<Rightarrow>
          (let node = radix_search_exact (rt (radix s)) p in
           if node = NULL \<or> node_data node = None then (Inr None, s)
           else (Inr (node_data node), s)))"

definition Radix_search_best ::
  "radix_h \<Rightarrow> args \<Rightarrow> pystate \<Rightarrow> (py_error + nat option) \<times> pystate" where
  "Radix_search_best lib a s =
     (case args_to_prefix lib a of
        Inl e \<Rightarrow> (Inl e, s)
      | Inr p \<Rightarrow>
          (let node = radix_search_best (rt (radix s)) p in
           if node = NULL \<or> node_data node = None then (Inr None, s)
           else (Inr (node_data node), s)))"

definition Radix_nodes :: "pystate \<Rightarrow> nat list \<times> pystate" where
  "Radix_nodes s = (List.map_filter node_data (radix_walk (head (rt (radix s)))), s)"

definition Radix_prefixes :: "pystate \<Rightarrow> string list \<times> pystate" where
  "Radix_prefixes s =
     (map (\<lambda>k. prefix (objs s ! k))
        (List.map_filter node_data (radix_walk (head (rt (radix s))))), s)"

text \<open>The caller's access to the metadata of a handle: \<^verbatim>\<open>rnode.data[key] = v\<close> and
  \<^verbatim>\<open>rnode.data[key]\<close> on the dictionary \<^verbatim>\<open>user_attr\<close>.\<close>

definition data_write :: "nat \<Rightarrow> string \<Rightarrow> string \<Rightarrow> pystate \<Rightarrow> pystate" where
  "data_write k key v s =
     s\<lparr>objs := (objs s)[k := (objs s ! k)\<lparr>user_attr := (key, v) # user_attr (objs s ! k)\<rparr>]\<rparr>"

definition data_read :: "nat \<Rightarrow> string \<Rightarrow> pystate \<Rightarrow> string option" where
  "data_read k key s = (if k < length (objs s) then map_of (user_attr (objs s ! k)) key else None)"

subsection \<open>The iterator\<close>

text \<open>\<^verbatim>\<open>RadixIterObject\<close>: \<open>iterstack\<close> holds the entries of the array below \<^verbatim>\<open>sp\<close>, the
  last one pushed first; \<^verbatim>\<open>rn\<close> and \<^verbatim>\<open>gen_id\<close> are \<open>iter_rn\<close> and \<open>iter_gen_id\<close>. The
  field \<^verbatim>\<open>parent\<close> is the state the methods are given.\<close>

record RadixIterObject =
  iterstack :: "radix_node list"
  iter_rn :: radix_node
  iter_gen_id :: "32 word"

definition Py_INCREF :: "RadixObject \<Rightarrow> RadixObject" where
  "Py_INCREF ob = ob\<lparr>ob_refcnt := ob_refcnt ob + 1\<rparr>"

text \<open>\<^verbatim>\<open>Radix_dealloc\<close> clears the back pointer of every node object of the tree and frees
  the tree; the node objects are what remains.\<close>

definition Radix_dealloc :: "pystate \<Rightarrow> RadixNodeObject list" where
  "Radix_dealloc s =
     fold (\<lambda>k os. os[k := (os ! k)\<lparr>rn := None\<rparr>])
       (List.map_filter node_data (radix_walk (head (rt (radix s))))) (objs s)"

text \<open>\<^verbatim>\<open>Py_DECREF\<close> on the tree object: the last reference deallocates it (\<open>Inl\<close>).\<close>

definition Py_DECREF :: "pystate \<Rightarrow> RadixNodeObject list + pystate" where
  "Py_DECREF s =
     (if ob_refcnt (radix s) \<le> 1 then Inl (Radix_dealloc s)
      else Inr (s\<lparr>radix := (radix s)\<lparr>ob_refcnt := ob_refcnt (radix s) - 1\<rparr>\<rparr>))"

definition newRadixIterObject :: "pystate \<Rightarrow> RadixIterObject \<times> pystate" where
  "newRadixIterObject parent =
     (\<lparr>iterstack = [], iter_rn = head (rt (radix parent)), iter_gen_id = gen_id (radix parent)\<rparr>,
      parent\<lparr>radix := Py_INCREF (radix parent)\<rparr>)"

definition RadixIter_dealloc :: "RadixIterObject \<Rightarrow> pystate \<Rightarrow> RadixNodeObject list + pystate" where
  "RadixIter_dealloc self parent = Py_DECREF parent"

text \<open>The step "get next node" of \<^verbatim>\<open>RadixIter_iternext\<close> (lines 615 to 624); the push
  \<^verbatim>\<open>*self->sp++\<close> into \<^verbatim>\<open>iterstack[RADIX_MAXBITS+1]\<close> is out of bounds when the array
  is full.\<close>

definition iter_advance :: "RadixIterObject \<Rightarrow> RadixIterObject option" where
  "iter_advance self =
     (case iter_rn self of
        NULL \<Rightarrow> Some self
      | Node b pfx l r dat \<Rightarrow>
          if l \<noteq> NULL then
            (if r \<noteq> NULL then
               (if length (iterstack self) < RADIX_MAXBITS + 1
                then Some (self\<lparr>iterstack := r # iterstack self, iter_rn := l\<rparr>)
                else None)
             else Some (self\<lparr>iter_rn := l\<rparr>))
          else if r \<noteq> NULL then Some (self\<lparr>iter_rn := r\<rparr>)
          else (case iterstack self of
                  n # st \<Rightarrow> Some (self\<lparr>iterstack := st, iter_rn := n\<rparr>)
                | [] \<Rightarrow> Some (self\<lparr>iter_rn := NULL\<rparr>)))"

text \<open>The nodes an iterator still has to visit, for the termination of the loop.\<close>

fun node_size :: "radix_node \<Rightarrow> nat" where
  "node_size NULL = 0"
| "node_size (Node b pfx l r dat) = 1 + node_size l + node_size r"

definition iter_left :: "RadixIterObject \<Rightarrow> nat" where
  "iter_left self = node_size (iter_rn self) + sum_list (map node_size (iterstack self))"

text \<open>The loop at the label \<^verbatim>\<open>again\<close> (lines 610 to 631).\<close>

function iter_again :: "RadixIterObject \<Rightarrow> (py_error + nat option) \<times> RadixIterObject" where
  "iter_again self =
     (case iter_rn self of
        NULL \<Rightarrow> (Inr None, self)
      | Node b pfx l r dat \<Rightarrow>
          (case iter_advance self of
             None \<Rightarrow> (Inl BufferOverrun, self)
           | Some self' \<Rightarrow>
               if pfx = None \<or> dat = None then iter_again self'
               else (Inr dat, self')))"
  by pat_completeness auto
termination
  by (relation "measure iter_left")
     (auto simp: iter_advance_def iter_left_def split: if_splits list.splits)

declare iter_again.simps [simp del]

definition RadixIter_iternext ::
  "RadixIterObject \<Rightarrow> pystate \<Rightarrow> (py_error + nat option) \<times> RadixIterObject \<times> pystate" where
  "RadixIter_iternext self parent =
     (if iter_gen_id self \<noteq> gen_id (radix parent) then
        (Inl (RuntimeWarning ''Radix tree modified during iteration''), self, parent)
      else (fst (iter_again self), snd (iter_again self), parent))"

subsection \<open>Sequences of calls\<close>

text \<open>A mutating call is an \<^verbatim>\<open>add\<close> or a \<^verbatim>\<open>delete\<close>; it succeeds when it raises
  nothing.\<close>

datatype mutation = Add args | Delete args

fun mutate :: "radix_h \<Rightarrow> mutation \<Rightarrow> pystate \<Rightarrow> bool \<times> pystate" where
  "mutate lib (Add a) s = (\<not> isl (fst (Radix_add lib a s)), snd (Radix_add lib a s))"
| "mutate lib (Delete a) s = (\<not> isl (fst (Radix_delete lib a s)), snd (Radix_delete lib a s))"

fun run_mutations :: "radix_h \<Rightarrow> mutation list \<Rightarrow> pystate \<Rightarrow> pystate" where
  "run_mutations lib [] s = s"
| "run_mutations lib (m # ms) s = run_mutations lib ms (snd (mutate lib m s))"

fun successes :: "radix_h \<Rightarrow> mutation list \<Rightarrow> pystate \<Rightarrow> nat" where
  "successes lib [] s = 0"
| "successes lib (m # ms) s =
     (if fst (mutate lib m s) then 1 else 0) + successes lib ms (snd (mutate lib m s))"

text \<open>What happens to a tree and an iterator over it after the iterator was made:
  mutating calls on the tree and advances of the iterator, in any order. \<open>performed\<close>
  counts the mutating calls that succeeded. The count and the two generations do not
  depend on the nodes the iterator holds. An advance that passes the comparison of the
  generations after the tree was changed (the counter has wrapped) walks the nodes as
  they were; in C it follows pointers into the tree as it is, to nodes that a
  \<^verbatim>\<open>delete\<close> may have freed.\<close>

datatype event = Call mutation | Advance

fun run_event :: "radix_h \<Rightarrow> event \<Rightarrow> pystate \<times> RadixIterObject \<Rightarrow> pystate \<times> RadixIterObject" where
  "run_event lib (Call m) (s, it) = (snd (mutate lib m s), it)"
| "run_event lib Advance (s, it) =
     (snd (snd (RadixIter_iternext it s)), fst (snd (RadixIter_iternext it s)))"

fun run_events ::
  "radix_h \<Rightarrow> event list \<Rightarrow> pystate \<times> RadixIterObject \<Rightarrow> pystate \<times> RadixIterObject" where
  "run_events lib [] c = c"
| "run_events lib (e # es) c = run_events lib es (run_event lib e c)"

fun performed :: "radix_h \<Rightarrow> event list \<Rightarrow> pystate \<times> RadixIterObject \<Rightarrow> nat" where
  "performed lib [] c = 0"
| "performed lib (Call m # es) c =
     (if fst (mutate lib m (fst c)) then 1 else 0) + performed lib es (run_event lib (Call m) c)"
| "performed lib (Advance # es) c = performed lib es (run_event lib Advance c)"

text \<open>A tree after \<^verbatim>\<open>newRadixIterObject\<close>, with the new iterator.\<close>

definition new_iter :: "pystate \<Rightarrow> pystate \<times> RadixIterObject" where
  "new_iter s = (snd (newRadixIterObject s), fst (newRadixIterObject s))"

text \<open>A reading call, on a tree and one iterator over it.\<close>

datatype reading = SearchExact args | SearchBest args | Nodes | Prefixes | IterNext

fun do_read :: "radix_h \<Rightarrow> reading \<Rightarrow> pystate \<times> RadixIterObject \<Rightarrow> pystate \<times> RadixIterObject" where
  "do_read lib (SearchExact a) (s, it) = (snd (Radix_search_exact lib a s), it)"
| "do_read lib (SearchBest a) (s, it) = (snd (Radix_search_best lib a s), it)"
| "do_read lib Nodes (s, it) = (snd (Radix_nodes s), it)"
| "do_read lib Prefixes (s, it) = (snd (Radix_prefixes s), it)"
| "do_read lib IterNext (s, it) =
     (case RadixIter_iternext it s of (res, it', s') \<Rightarrow> (s', it'))"

fun do_reads ::
  "radix_h \<Rightarrow> reading list \<Rightarrow> pystate \<times> RadixIterObject \<Rightarrow> pystate \<times> RadixIterObject" where
  "do_reads lib [] c = c"
| "do_reads lib (x # xs) c = do_reads lib xs (do_read lib x c)"

text \<open>The iterator after \<open>n\<close> calls of \<^verbatim>\<open>RadixIter_iternext\<close> on an unchanged tree.\<close>

fun iterate :: "nat \<Rightarrow> RadixIterObject \<Rightarrow> pystate \<Rightarrow> RadixIterObject" where
  "iterate 0 it s = it"
| "iterate (Suc n) it s = (case RadixIter_iternext it s of (res, it', s') \<Rightarrow> iterate n it' s')"

text \<open>Releasing \<open>n\<close> references to the tree object, while it lives.\<close>

fun release :: "nat \<Rightarrow> pystate \<Rightarrow> RadixNodeObject list + pystate" where
  "release 0 s = Inr s"
| "release (Suc n) s = (case Py_DECREF s of Inl os \<Rightarrow> Inl os | Inr s' \<Rightarrow> release n s')"

subsection \<open>Invariants\<close>

text \<open>The prefixes stored in a subtree.\<close>

fun prefixes_of :: "radix_node \<Rightarrow> prefix_t list" where
  "prefixes_of NULL = []"
| "prefixes_of (Node b pfx l r dat) =
     (case pfx of None \<Rightarrow> [] | Some q \<Rightarrow> [q]) @ prefixes_of l @ prefixes_of r"

text \<open>The number of nodes on the longest path from a node down to a leaf; the depth of a
  tree, counted in edges, is one less.\<close>

fun node_height :: "radix_node \<Rightarrow> nat" where
  "node_height NULL = 0"
| "node_height (Node b pfx l r dat) = 1 + max (node_height l) (node_height r)"

text \<open>The shape of the tree (spec, section 3): a data node tests the bit at its prefix's
  length, a glue node has two children and no data; the prefixes below a node agree on
  the bits before its test position, and those of the left (right) subtree are longer
  and have a 0 (1) at that position.\<close>

fun radix_inv :: "radix_node \<Rightarrow> bool" where
  "radix_inv NULL = True"
| "radix_inv (Node b pfx l r dat) =
     ((case pfx of None \<Rightarrow> l \<noteq> NULL \<and> r \<noteq> NULL \<and> dat = None | Some q \<Rightarrow> bitlen q = b) \<and>
      list_all (\<lambda>q. b < bitlen q \<and> \<not> addr_bit (add q) b) (prefixes_of l) \<and>
      list_all (\<lambda>q. b < bitlen q \<and> addr_bit (add q) b) (prefixes_of r) \<and>
      list_all (\<lambda>q. list_all (\<lambda>q'. comp_with_mask (add q) (add q') b)
                      (prefixes_of (Node b pfx l r dat)))
        (prefixes_of (Node b pfx l r dat)) \<and>
      radix_inv l \<and> radix_inv r)"

declare radix_inv.simps(2) [simp del]

text \<open>A property of the prefix and the data of every node of a subtree.\<close>

fun all_nodes :: "(prefix_t option \<Rightarrow> nat option \<Rightarrow> bool) \<Rightarrow> radix_node \<Rightarrow> bool" where
  "all_nodes P NULL = True"
| "all_nodes P (Node b pfx l r dat) = (P pfx dat \<and> all_nodes P l \<and> all_nodes P r)"

text \<open>Every data node carries its node object, whose read-only fields were taken from
  the node's prefix.\<close>

definition handle_ok ::
  "radix_h \<Rightarrow> RadixNodeObject list \<Rightarrow> prefix_t option \<Rightarrow> nat option \<Rightarrow> bool" where
  "handle_ok lib os pfx dat =
     (case pfx of
        None \<Rightarrow> True
      | Some q \<Rightarrow>
          (case dat of
             None \<Rightarrow> False
           | Some k \<Rightarrow> k < length os \<and> prefix (os ! k) = prefix_ntop lib q \<and>
                       prefixlen (os ! k) = int (bitlen q) \<and> node_family (os ! k) = family q))"

text \<open>The invariant of the states that \<^verbatim>\<open>add\<close> and \<^verbatim>\<open>delete\<close> produce from a new
  tree: the shape, stored prefixes that are valid and of the tree's family, and the node
  objects.\<close>

definition state_inv :: "radix_h \<Rightarrow> pystate \<Rightarrow> bool" where
  "state_inv lib s =
     (radix_inv (head (rt (radix s))) \<and>
      list_all (\<lambda>q. valid_prefix q \<and> tree_family (radix s) = Some (family q))
        (prefixes_of (head (rt (radix s)))) \<and>
      all_nodes (handle_ok lib (objs s)) (head (rt (radix s))))"

text \<open>The parsers return valid prefixes only.\<close>

definition parsers_valid :: "radix_h \<Rightarrow> bool" where
  "parsers_valid lib =
     ((\<forall>s n p. prefix_pton lib s n = Some p \<longrightarrow> valid_prefix p) \<and>
      (\<forall>b len n p. prefix_from_blob lib b len n = Some p \<longrightarrow> valid_prefix p))"

text \<open>The entries of the fixed stack of an iterator over a tree of height at most \<open>H\<close>:
  each one leaves room for the path below it.\<close>

fun stack_ok :: "nat \<Rightarrow> radix_node list \<Rightarrow> bool" where
  "stack_ok H [] = True"
| "stack_ok H (n # st) = (node_height n + length st \<le> H \<and> stack_ok H st)"

definition iter_inv :: "nat \<Rightarrow> RadixIterObject \<Rightarrow> bool" where
  "iter_inv H it =
     (node_height (iter_rn it) + length (iterstack it) \<le> H \<and> stack_ok H (iterstack it))"

subsection \<open>Concrete prefixes and a concrete parser, for examples\<close>

definition pfx_10_8 :: prefix_t where
  "pfx_10_8 = \<lparr>family = AF_INET, bitlen = 8, add = [10, 0, 0, 0]\<rparr>"

definition pfx_10_1_16 :: prefix_t where
  "pfx_10_1_16 = \<lparr>family = AF_INET, bitlen = 16, add = [10, 1, 0, 0]\<rparr>"

definition pfx_10_1_2_3 :: prefix_t where
  "pfx_10_1_2_3 = \<lparr>family = AF_INET, bitlen = 32, add = [10, 1, 2, 3]\<rparr>"

definition pfx_11_8 :: prefix_t where
  "pfx_11_8 = \<lparr>family = AF_INET, bitlen = 8, add = [11, 0, 0, 0]\<rparr>"

definition pfx_v6_0 :: prefix_t where
  "pfx_v6_0 = \<lparr>family = AF_INET6, bitlen = 0, add = replicate 16 0\<rparr>"

definition pfx_a00_1 :: prefix_t where
  "pfx_a00_1 = \<lparr>family = AF_INET6, bitlen = 128,
                 add = [10, 0, 0, 0, 0, 0, 0, 0, 0, 0, 0, 0, 0, 0, 0, 1]\<rparr>"

definition example_pton :: "string \<Rightarrow> int \<Rightarrow> prefix_t option" where
  "example_pton s n =
     (if n \<noteq> -1 then None
      else if s = ''10.0.0.0/8'' then Some pfx_10_8
      else if s = ''10.1.0.0/16'' then Some pfx_10_1_16
      else if s = ''10.1.2.3'' then Some pfx_10_1_2_3
      else if s = ''11.0.0.0/8'' then Some pfx_11_8
      else if s = ''::/0'' then Some pfx_v6_0
      else if s = ''a00::1'' then Some pfx_a00_1
      else None)"

definition example_ntop :: "prefix_t \<Rightarrow> string" where
  "example_ntop p =
     (if p = pfx_10_8 then ''10.0.0.0/8''
      else if p = pfx_10_1_16 then ''10.1.0.0/16''
      else if p = pfx_10_1_2_3 then ''10.1.2.3/32''
      else if p = pfx_11_8 then ''11.0.0.0/8''
      else if p = pfx_v6_0 then ''::/0''
      else if p = pfx_a00_1 then ''a00::1/128''
      else [])"

definition example_h :: radix_h where
  "example_h =
     \<lparr>prefix_pton = example_pton, prefix_from_blob = (\<lambda>b len n. None),
      prefix_ntop = example_ntop, prefix_addr_ntop = (\<lambda>p. takeWhile (\<lambda>c. c \<noteq> CHR ''/'') (example_ntop p))\<rparr>"

definition text_arg :: "string \<Rightarrow> args" where
  "text_arg s = \<lparr>arg_addr = Some s, arg_packed = None, arg_prefixlen = -1\<rparr>"

text \<open>The tree after \<^verbatim>\<open>add("10.0.0.0/8")\<close> on a new tree, written out.\<close>

definition state_10_8 :: pystate where
  "state_10_8 =
     \<lparr>radix = \<lparr>ob_refcnt = 1,
               rt = \<lparr>head = Node 8 (Some pfx_10_8) NULL NULL (Some 0), count = 1\<rparr>,
               tree_family = Some AF_INET, gen_id = 1\<rparr>,
      objs = [\<lparr>user_attr = [], network = ''10.0.0.0'', prefix = ''10.0.0.0/8'', prefixlen = 8,
               node_family = AF_INET, packed = [10, 0, 0, 0], rn = Some pfx_10_8\<rparr>]\<rparr>"

text \<open>The tree after \<^verbatim>\<open>add("11.0.0.0/8")\<close> and then \<^verbatim>\<open>add("10.1.0.0/16")\<close> on that
  tree: a glue node with two children, 10.0.0.0/8 on the left with 10.1.0.0/16 below it,
  and 11.0.0.0/8 on the right.\<close>

definition state_three :: pystate where
  "state_three =
     snd (Radix_add example_h (text_arg ''10.1.0.0/16'')
            (snd (Radix_add example_h (text_arg ''11.0.0.0/8'') state_10_8)))"

section \<open>The calls on concrete trees\<close>

lemma state_10_8_reached:
  "Radix_add example_h (text_arg ''10.0.0.0/8'') radix_Radix = (Inr 0, state_10_8)"
  by code_simp

lemma arg_v6_0: "args_to_prefix example_h (text_arg ''::/0'') = Inr pfx_v6_0"
  by code_simp

lemma arg_11_8: "args_to_prefix example_h (text_arg ''11.0.0.0/8'') = Inr pfx_11_8"
  by code_simp

lemma arg_10_8: "args_to_prefix example_h (text_arg ''10.0.0.0/8'') = Inr pfx_10_8"
  by code_simp

lemma state_10_8_family: "tree_family (radix state_10_8) = Some AF_INET"
  by (simp add: state_10_8_def)

lemma state_10_8_inv: "state_inv example_h state_10_8"
  by code_simp

text \<open>The examples of the specification (section 8): with 10.0.0.0/8 and 10.1.0.0/16
  stored, the best match of 10.1.2.3 is the /16 entry; once that is deleted, it is the /8
  entry.\<close>

lemma more_specific_wins:
  "fst (Radix_search_best example_h (text_arg ''10.1.2.3'')
     (snd (Radix_add example_h (text_arg ''10.1.0.0/16'') state_10_8))) = Inr (Some 1)"
  by code_simp

lemma less_specific_after_delete:
  "fst (Radix_search_best example_h (text_arg ''10.1.2.3'')
     (snd (Radix_delete example_h (text_arg ''10.1.0.0/16'')
        (snd (Radix_add example_h (text_arg ''10.1.0.0/16'') state_10_8))))) = Inr (Some 0)"
  by code_simp

section \<open>The engine: searching and inserting\<close>


lemma comp_with_mask_iff:
  "comp_with_mask a b n \<longleftrightarrow> (\<forall>i<n. addr_bit a i = addr_bit b i)"
  by (auto simp: comp_with_mask_def list_all_iff)

lemma comp_with_mask_refl: "comp_with_mask a a n"
  by (simp add: comp_with_mask_iff)

lemma comp_with_mask_sym: "comp_with_mask a b n \<Longrightarrow> comp_with_mask b a n"
  by (simp add: comp_with_mask_iff)

lemma comp_with_mask_trans:
  "comp_with_mask a b n \<Longrightarrow> comp_with_mask b c m \<Longrightarrow> k \<le> n \<Longrightarrow> k \<le> m \<Longrightarrow> comp_with_mask a c k"
  by (simp add: comp_with_mask_iff)

lemma comp_with_mask_bit:
  "comp_with_mask a b n \<Longrightarrow> i < n \<Longrightarrow> addr_bit a i = addr_bit b i"
  by (simp add: comp_with_mask_iff)

lemma find_upt_first:
  assumes "(case find P [0..<c] of None \<Rightarrow> c | Some i \<Rightarrow> i) = d"
  shows "d \<le> c \<and> (\<forall>i<d. \<not> P i) \<and> (d < c \<longrightarrow> P d)"
proof (cases "find P [0..<c]")
  case None
  then have "\<forall>i<c. \<not> P i" by (auto simp: find_None_iff)
  moreover from None assms have "d = c" by simp
  ultimately show ?thesis by simp
next
  case (Some i)
  then have "i < c \<and> P i \<and> (\<forall>j<i. \<not> P j)" by (auto simp: find_Some_iff)
  moreover from Some assms have "d = i" by simp
  ultimately show ?thesis by simp
qed

lemma differ_bit_props:
  "differ_bit a ta c \<le> c \<and> comp_with_mask a ta (differ_bit a ta c) \<and>
   (differ_bit a ta c < c \<longrightarrow> addr_bit a (differ_bit a ta c) \<noteq> addr_bit ta (differ_bit a ta c))"
  using find_upt_first[where P = "\<lambda>i. addr_bit a i \<noteq> addr_bit ta i" and c = c
      and d = "differ_bit a ta c"]
  unfolding differ_bit_def comp_with_mask_iff by blast

lemma prefix_eq_refl: "prefix_eq p p"
  by (simp add: prefix_eq_def comp_with_mask_refl)

lemma radix_inv_Node:
  "radix_inv (Node b pfx l r dat) \<longleftrightarrow>
     (case pfx of None \<Rightarrow> l \<noteq> NULL \<and> r \<noteq> NULL \<and> dat = None | Some q \<Rightarrow> bitlen q = b) \<and>
     (\<forall>q\<in>set (prefixes_of l). b < bitlen q \<and> \<not> addr_bit (add q) b) \<and>
     (\<forall>q\<in>set (prefixes_of r). b < bitlen q \<and> addr_bit (add q) b) \<and>
     (\<forall>q\<in>set (prefixes_of (Node b pfx l r dat)).
        \<forall>q'\<in>set (prefixes_of (Node b pfx l r dat)). comp_with_mask (add q) (add q') b) \<and>
     radix_inv l \<and> radix_inv r"
  by (simp only: radix_inv.simps list_all_iff)



lemma search_exact_node_found:
  "radix_inv t \<Longrightarrow> q \<in> set (prefixes_of t) \<Longrightarrow> prefix_eq q p \<Longrightarrow>
   node_prefix (search_exact_node t p) = Some q"
proof (induction t)
  case NULL
  then show ?case by simp
next
  case (Node b pfx l r dat)
  from Node.prems(1) have inv: "radix_inv l" "radix_inv r"
    and L: "\<forall>q\<in>set (prefixes_of l). b < bitlen q \<and> \<not> addr_bit (add q) b"
    and R: "\<forall>q\<in>set (prefixes_of r). b < bitlen q \<and> addr_bit (add q) b"
    and own: "\<And>q'. pfx = Some q' \<Longrightarrow> bitlen q' = b"
    by (auto simp: radix_inv_Node)
  from Node.prems(3) have len: "bitlen q = bitlen p"
    and bits: "comp_with_mask (add q) (add p) (bitlen p)" by (simp_all add: prefix_eq_def)
  show ?case
  proof (cases "b < bitlen p")
    case True
    with own len have notown: "pfx \<noteq> Some q" by auto
    from True bits have same: "addr_bit (add p) b = addr_bit (add q) b"
      by (simp add: comp_with_mask_iff)
    from notown Node.prems(2) consider "q \<in> set (prefixes_of l)" | "q \<in> set (prefixes_of r)"
      by (auto split: option.splits)
    then show ?thesis
    proof cases
      case 1
      with L same have "\<not> addr_bit (add p) b" by simp
      with True Node.IH(1)[OF inv(1) 1 Node.prems(3)] show ?thesis by simp
    next
      case 2
      with R same have "addr_bit (add p) b" by simp
      with True Node.IH(2)[OF inv(2) 2 Node.prems(3)] show ?thesis by simp
    qed
  next
    case False
    with L R len have "q \<notin> set (prefixes_of l)" "q \<notin> set (prefixes_of r)" by auto
    with Node.prems(2) have "pfx = Some q" by (auto split: option.splits)
    with False Node.prems(3) show ?thesis by simp
  qed
qed

lemma search_exact_node_stored:
  "search_exact_node t p \<noteq> NULL \<Longrightarrow> list_ex (\<lambda>q. prefix_eq q p) (prefixes_of t)"
  by (induction t) (auto split: if_splits option.splits)

lemma search_exact_node_walk:
  "search_exact_node t p \<noteq> NULL \<Longrightarrow> search_exact_node t p \<in> set (radix_walk t)"
  by (induction t) (auto split: if_splits option.splits)

lemma lookup_descend_found:
  "radix_inv t \<Longrightarrow> q \<in> set (prefixes_of t) \<Longrightarrow> prefix_eq q p \<Longrightarrow>
   lookup_descend t p = search_exact_node t p"
proof (induction t)
  case NULL
  then show ?case by simp
next
  case (Node b pfx l r dat)
  from Node.prems(1) have inv: "radix_inv l" "radix_inv r"
    and L: "\<forall>q\<in>set (prefixes_of l). b < bitlen q \<and> \<not> addr_bit (add q) b"
    and R: "\<forall>q\<in>set (prefixes_of r). b < bitlen q \<and> addr_bit (add q) b"
    and own: "\<And>q'. pfx = Some q' \<Longrightarrow> bitlen q' = b"
    by (auto simp: radix_inv_Node)
  from Node.prems(3) have len: "bitlen q = bitlen p"
    and bits: "comp_with_mask (add q) (add p) (bitlen p)" by (simp_all add: prefix_eq_def)
  show ?case
  proof (cases "b < bitlen p")
    case True
    with own len have notown: "pfx \<noteq> Some q" by auto
    from True bits have same: "addr_bit (add p) b = addr_bit (add q) b"
      by (simp add: comp_with_mask_iff)
    from notown Node.prems(2) consider "q \<in> set (prefixes_of l)" | "q \<in> set (prefixes_of r)"
      by (auto split: option.splits)
    then show ?thesis
    proof cases
      case 1
      with L same have nb: "\<not> addr_bit (add p) b" by simp
      from 1 have "l \<noteq> NULL" by auto
      with nb True Node.IH(1)[OF inv(1) 1 Node.prems(3)] show ?thesis by simp
    next
      case 2
      with R same have nb: "addr_bit (add p) b" by simp
      from 2 have "r \<noteq> NULL" by auto
      with nb True Node.IH(2)[OF inv(2) 2 Node.prems(3)] show ?thesis by simp
    qed
  next
    case False
    with L R len have "q \<notin> set (prefixes_of l)" "q \<notin> set (prefixes_of r)" by auto
    with Node.prems(2) have "pfx = Some q" by (auto split: option.splits)
    with False Node.prems(3) show ?thesis by simp
  qed
qed

lemma lookup_place_found:
  "radix_inv t \<Longrightarrow> q \<in> set (prefixes_of t) \<Longrightarrow> prefix_eq q p \<Longrightarrow>
   lookup_place t p ta (bitlen p) = (t, search_exact_node t p, False)"
proof (induction t)
  case NULL
  then show ?case by simp
next
  case (Node b pfx l r dat)
  from Node.prems(1) have inv: "radix_inv l" "radix_inv r"
    and L: "\<forall>q\<in>set (prefixes_of l). b < bitlen q \<and> \<not> addr_bit (add q) b"
    and R: "\<forall>q\<in>set (prefixes_of r). b < bitlen q \<and> addr_bit (add q) b"
    and own: "\<And>q'. pfx = Some q' \<Longrightarrow> bitlen q' = b"
    by (auto simp: radix_inv_Node)
  from Node.prems(3) have len: "bitlen q = bitlen p"
    and bits: "comp_with_mask (add q) (add p) (bitlen p)" by (simp_all add: prefix_eq_def)
  show ?case
  proof (cases "b < bitlen p")
    case True
    with own len have notown: "pfx \<noteq> Some q" by auto
    from True bits have same: "addr_bit (add p) b = addr_bit (add q) b"
      by (simp add: comp_with_mask_iff)
    from notown Node.prems(2) consider "q \<in> set (prefixes_of l)" | "q \<in> set (prefixes_of r)"
      by (auto split: option.splits)
    then show ?thesis
    proof cases
      case 1
      with L same have nb: "\<not> addr_bit (add p) b" by simp
      with True Node.IH(1)[OF inv(1) 1 Node.prems(3)] show ?thesis by simp
    next
      case 2
      with R same have nb: "addr_bit (add p) b" by simp
      with True Node.IH(2)[OF inv(2) 2 Node.prems(3)] show ?thesis by simp
    qed
  next
    case False
    with L R len have "q \<notin> set (prefixes_of l)" "q \<notin> set (prefixes_of r)" by auto
    with Node.prems(2) have "pfx = Some q" by (auto split: option.splits)
    with False Node.prems(3) own len show ?thesis by simp
  qed
qed

lemma set_prefixes_of_Node:
  "set (prefixes_of (Node b pfx l r dat)) =
     (case pfx of None \<Rightarrow> {} | Some q \<Rightarrow> {q}) \<union> set (prefixes_of l) \<union> set (prefixes_of r)"
  by (simp split: option.splits)

lemma radix_inv_nonempty: "radix_inv t \<Longrightarrow> t \<noteq> NULL \<Longrightarrow> prefixes_of t \<noteq> []"
proof (induction t)
  case NULL
  then show ?case by simp
next
  case (Node b pfx l r dat)
  show ?case
  proof (cases pfx)
    case None
    with Node.prems have "l \<noteq> NULL" "radix_inv l" by (simp_all add: radix_inv_Node)
    with Node.IH(1) show ?thesis by simp
  next
    case (Some q)
    then show ?thesis by simp
  qed
qed

lemma lookup_descend_in:
  "lookup_descend t p = Node nb (Some tp) nl nr nd \<Longrightarrow> tp \<in> set (prefixes_of t)"
  by (induction t) (auto simp: Let_def split: if_splits)

lemma lookup_descend_data:
  "radix_inv t \<Longrightarrow> t \<noteq> NULL \<Longrightarrow>
   \<exists>tp nl nr nd. lookup_descend t p = Node (bitlen tp) (Some tp) nl nr nd"
proof (induction t)
  case NULL
  then show ?case by simp
next
  case (Node b pfx l r dat)
  let ?c = "if addr_bit (add p) b then r else l"
  from Node.prems(1) have inv: "radix_inv l" "radix_inv r"
    and glue: "pfx = None \<Longrightarrow> l \<noteq> NULL \<and> r \<noteq> NULL"
    and own: "\<And>q. pfx = Some q \<Longrightarrow> bitlen q = b"
    by (auto simp: radix_inv_Node)
  show ?case
  proof (cases "?c = NULL")
    case True
    with glue obtain q where "pfx = Some q" by (cases pfx) (auto split: if_splits)
    with True own show ?thesis by (auto simp: Let_def)
  next
    case False
    with Node.IH inv have "\<exists>tp nl nr nd. lookup_descend ?c p = Node (bitlen tp) (Some tp) nl nr nd"
      by (auto split: if_splits)
    with False own show ?thesis by (cases pfx) (auto simp: Let_def)
  qed
qed

lemma lookup_place_not_NULL: "fst (lookup_place t p ta d) \<noteq> NULL"
  by (cases t) (auto simp: Let_def split: prod.splits option.splits)

lemma lookup_place_unchanged:
  "lookup_place t p ta d = (t', node, False) \<Longrightarrow> t' = t"
  by (induction t arbitrary: t') (auto simp: Let_def split: prod.splits option.splits if_splits)

lemma radix_inv_NodeI:
  assumes "case pfx of None \<Rightarrow> l \<noteq> NULL \<and> r \<noteq> NULL \<and> dat = None | Some q \<Rightarrow> bitlen q = b"
    and "\<forall>q\<in>set (prefixes_of l). b < bitlen q \<and> \<not> addr_bit (add q) b"
    and "\<forall>q\<in>set (prefixes_of r). b < bitlen q \<and> addr_bit (add q) b"
    and "\<forall>q\<in>set (prefixes_of (Node b pfx l r dat)). comp_with_mask rep (add q) b"
    and "radix_inv l" and "radix_inv r"
  shows "radix_inv (Node b pfx l r dat)"
proof -
  have "\<forall>q\<in>set (prefixes_of (Node b pfx l r dat)).
        \<forall>q'\<in>set (prefixes_of (Node b pfx l r dat)). comp_with_mask (add q) (add q') b"
  proof (intro ballI)
    fix q q'
    assume "q \<in> set (prefixes_of (Node b pfx l r dat))"
      and "q' \<in> set (prefixes_of (Node b pfx l r dat))"
    with assms(4) have "comp_with_mask rep (add q) b" "comp_with_mask rep (add q') b" by blast+
    from comp_with_mask_trans[OF comp_with_mask_sym[OF this(1)] this(2)]
    show "comp_with_mask (add q) (add q') b" by simp
  qed
  with assms(1,2,3,5,6) show ?thesis by (simp only: radix_inv_Node simp_thms)
qed

lemma radix_inv_leaf: "radix_inv (Node (bitlen p) (Some p) NULL NULL dat)"
  by (simp add: radix_inv_Node comp_with_mask_refl)

lemma comp_with_mask_mono: "comp_with_mask a b n \<Longrightarrow> k \<le> n \<Longrightarrow> comp_with_mask a b k"
  by (simp add: comp_with_mask_iff)

lemma lookup_place_inv:
  assumes "radix_inv t"
    and "lookup_descend t p = Node (bitlen tp) (Some tp) nl nr nd"
    and "d \<le> bitlen p" and "d \<le> bitlen tp"
    and "comp_with_mask (add p) (add tp) d"
    and "d < bitlen p \<Longrightarrow> d < bitlen tp \<Longrightarrow> addr_bit (add p) d \<noteq> addr_bit (add tp) d"
    and "lookup_place t p (add tp) d = (t', node, created)"
  shows "radix_inv t' \<and>
         (created \<longrightarrow> set (prefixes_of t') = insert p (set (prefixes_of t)) \<and>
                      node_prefix node = Some p \<and> node_data node = None) \<and>
         (\<not> created \<longrightarrow> (\<exists>q\<in>set (prefixes_of t).
                      bitlen q = bitlen p \<and> comp_with_mask (add p) (add q) (bitlen p)))"
  using assms(1,2,7)
proof (induction t arbitrary: t')
  case NULL
  then show ?case by simp
next
  case (Node b pfx l r dat)
  note A = assms(3-6)
  from Node.prems(1) have inv: "radix_inv l" "radix_inv r"
    and L: "\<forall>q\<in>set (prefixes_of l). b < bitlen q \<and> \<not> addr_bit (add q) b"
    and R: "\<forall>q\<in>set (prefixes_of r). b < bitlen q \<and> addr_bit (add q) b"
    and own: "\<And>q. pfx = Some q \<Longrightarrow> bitlen q = b"
    and glue: "pfx = None \<Longrightarrow> l \<noteq> NULL \<and> r \<noteq> NULL \<and> dat = None"
    and PW: "\<forall>q\<in>set (prefixes_of (Node b pfx l r dat)).
        \<forall>q'\<in>set (prefixes_of (Node b pfx l r dat)). comp_with_mask (add q) (add q') b"
    by (auto simp: radix_inv_Node)
  have tp_in: "tp \<in> set (prefixes_of (Node b pfx l r dat))"
    by (rule lookup_descend_in[OF Node.prems(2)])
  have ge: "\<forall>q\<in>set (prefixes_of (Node b pfx l r dat)). b \<le> bitlen q"
    using L R own by (auto split: option.splits)
  have agree: "\<forall>q\<in>set (prefixes_of (Node b pfx l r dat)). \<forall>k. k \<le> b \<longrightarrow> k \<le> d \<longrightarrow>
      comp_with_mask (add p) (add q) k"
  proof (intro ballI allI impI)
    fix q k
    assume q: "q \<in> set (prefixes_of (Node b pfx l r dat))" and k: "k \<le> b" "k \<le> d"
    from PW tp_in q have "comp_with_mask (add tp) (add q) b" by blast
    from comp_with_mask_trans[OF A(3) this k(2) k(1)] show "comp_with_mask (add p) (add q) k" .
  qed
  have agree_self: "\<And>k. comp_with_mask (add p) (add p) k" by (rule comp_with_mask_refl)
  let ?t = "Node b pfx l r dat"
  let ?new = "Node (bitlen p) (Some p) NULL NULL None"
  consider (down) "b < d"
    | (same) "\<not> b < d" "d = bitlen p" "b = bitlen p"
    | (below) "\<not> b < d" "b = d" "d < bitlen p"
    | (above) "d < b" "bitlen p = d"
    | (glue) "d < b" "d < bitlen p"
    using A(1) by linarith
  then show ?case
  proof cases
    case down
    let ?c = "if addr_bit (add p) b then r else l"
    from down A(1) have bp: "b < bitlen p" by simp
    have cnn: "?c \<noteq> NULL"
    proof
      assume "?c = NULL"
      with Node.prems(2) bp have "b = bitlen tp" by (simp add: Let_def split: if_splits)
      with down A(2) show False by simp
    qed
    with Node.prems(2) bp have desc: "lookup_descend ?c p = Node (bitlen tp) (Some tp) nl nr nd"
      by (simp add: Let_def split: if_splits)
    have pk: "\<forall>q\<in>set (prefixes_of ?t). comp_with_mask (add p) (add q) b"
      using agree down by simp
    show ?thesis
    proof (cases "addr_bit (add p) b")
      case True
      obtain r' where lp: "lookup_place r p (add tp) d = (r', node, created)"
        and t': "t' = Node b pfx l r' dat"
        using Node.prems(3) down True by (auto split: prod.splits)
      from desc True have "lookup_descend r p = Node (bitlen tp) (Some tp) nl nr nd" by simp
      from Node.IH(2)[OF inv(2) this lp] have invr': "radix_inv r'"
        and cr: "created \<Longrightarrow> set (prefixes_of r') = insert p (set (prefixes_of r)) \<and>
                   node_prefix node = Some p \<and> node_data node = None"
        and ncr: "\<not> created \<Longrightarrow> \<exists>q\<in>set (prefixes_of r).
                   bitlen q = bitlen p \<and> comp_with_mask (add p) (add q) (bitlen p)" by simp_all
      from ncr have ncr': "\<not> created \<Longrightarrow> \<exists>q\<in>set (prefixes_of ?t).
                   bitlen q = bitlen p \<and> comp_with_mask (add p) (add q) (bitlen p)"
        by (auto simp: set_prefixes_of_Node)
      have un: "\<not> created \<Longrightarrow> r' = r"
        using lp lookup_place_unchanged[of r p "add tp" d r' node] by simp
      have sub: "set (prefixes_of r') \<subseteq> insert p (set (prefixes_of r))"
        using cr un by (cases created) auto
      have nn: "r' \<noteq> NULL" using lookup_place_not_NULL[of r p "add tp" d] lp by simp
      have "radix_inv (Node b pfx l r' dat)"
      proof (rule radix_inv_NodeI[where rep = "add p"])
        show "case pfx of None \<Rightarrow> l \<noteq> NULL \<and> r' \<noteq> NULL \<and> dat = None | Some q \<Rightarrow> bitlen q = b"
          using glue own nn by (auto split: option.splits)
        show "\<forall>q\<in>set (prefixes_of l). b < bitlen q \<and> \<not> addr_bit (add q) b" by (rule L)
        show "\<forall>q\<in>set (prefixes_of r'). b < bitlen q \<and> addr_bit (add q) b"
          using sub R bp True by auto
        show "\<forall>q\<in>set (prefixes_of (Node b pfx l r' dat)). comp_with_mask (add p) (add q) b"
          using sub pk agree_self by (auto simp: set_prefixes_of_Node split: option.splits)
      qed (rule inv(1), rule invr')
      moreover have "created \<Longrightarrow> set (prefixes_of (Node b pfx l r' dat)) = insert p (set (prefixes_of ?t))"
        using cr by (auto simp: set_prefixes_of_Node)
      ultimately show ?thesis using t' cr ncr' by blast
    next
      case False
      obtain l' where lp: "lookup_place l p (add tp) d = (l', node, created)"
        and t': "t' = Node b pfx l' r dat"
        using Node.prems(3) down False by (auto split: prod.splits)
      from desc False have "lookup_descend l p = Node (bitlen tp) (Some tp) nl nr nd" by simp
      from Node.IH(1)[OF inv(1) this lp] have invl': "radix_inv l'"
        and cr: "created \<Longrightarrow> set (prefixes_of l') = insert p (set (prefixes_of l)) \<and>
                   node_prefix node = Some p \<and> node_data node = None"
        and ncr: "\<not> created \<Longrightarrow> \<exists>q\<in>set (prefixes_of l).
                   bitlen q = bitlen p \<and> comp_with_mask (add p) (add q) (bitlen p)" by simp_all
      from ncr have ncr': "\<not> created \<Longrightarrow> \<exists>q\<in>set (prefixes_of ?t).
                   bitlen q = bitlen p \<and> comp_with_mask (add p) (add q) (bitlen p)"
        by (auto simp: set_prefixes_of_Node)
      have un: "\<not> created \<Longrightarrow> l' = l"
        using lp lookup_place_unchanged[of l p "add tp" d l' node] by simp
      have sub: "set (prefixes_of l') \<subseteq> insert p (set (prefixes_of l))"
        using cr un by (cases created) auto
      have nn: "l' \<noteq> NULL" using lookup_place_not_NULL[of l p "add tp" d] lp by simp
      have "radix_inv (Node b pfx l' r dat)"
      proof (rule radix_inv_NodeI[where rep = "add p"])
        show "case pfx of None \<Rightarrow> l' \<noteq> NULL \<and> r \<noteq> NULL \<and> dat = None | Some q \<Rightarrow> bitlen q = b"
          using glue own nn by (auto split: option.splits)
        show "\<forall>q\<in>set (prefixes_of l'). b < bitlen q \<and> \<not> addr_bit (add q) b"
          using sub L bp False by auto
        show "\<forall>q\<in>set (prefixes_of r). b < bitlen q \<and> addr_bit (add q) b" by (rule R)
        show "\<forall>q\<in>set (prefixes_of (Node b pfx l' r dat)). comp_with_mask (add p) (add q) b"
          using sub pk agree_self by (auto simp: set_prefixes_of_Node split: option.splits)
      qed (rule invl', rule inv(2))
      moreover have "created \<Longrightarrow> set (prefixes_of (Node b pfx l' r dat)) = insert p (set (prefixes_of ?t))"
        using cr by (auto simp: set_prefixes_of_Node)
      ultimately show ?thesis using t' cr ncr' by blast
    qed
  next
    case same
    show ?thesis
    proof (cases pfx)
      case None
      with same Node.prems(3) have t': "t' = Node b (Some p) l r dat" "node = Node b (Some p) l r dat"
        "created" by auto
      have "radix_inv (Node b (Some p) l r dat)"
      proof (rule radix_inv_NodeI[where rep = "add p"])
        show "\<forall>q\<in>set (prefixes_of (Node b (Some p) l r dat)). comp_with_mask (add p) (add q) b"
          using agree same agree_self None by (auto simp: set_prefixes_of_Node)
      qed (use same L R inv in simp_all)
      with t' glue None show ?thesis by (simp add: set_prefixes_of_Node)
    next
      case (Some q)
      with same Node.prems(3) have "t' = ?t" "\<not> created" by auto
      moreover from Some have qin: "q \<in> set (prefixes_of ?t)" by simp
      moreover from own[OF Some] same have "bitlen q = bitlen p" by simp
      moreover from agree qin same have "comp_with_mask (add p) (add q) (bitlen p)" by simp
      ultimately show ?thesis using Node.prems(1) by blast
    qed
  next
    case below
    let ?c = "if addr_bit (add p) b then r else l"
    have cn: "?c = NULL"
    proof (rule ccontr)
      assume cnn: "?c \<noteq> NULL"
      with Node.prems(2) below have "lookup_descend ?c p = Node (bitlen tp) (Some tp) nl nr nd"
        by (simp add: Let_def split: if_splits)
      from lookup_descend_in[OF this] have "tp \<in> set (prefixes_of ?c)" .
      with L R have "b < bitlen tp" "addr_bit (add tp) b = addr_bit (add p) b"
        by (auto split: if_splits)
      with A(4) below show False by simp
    qed
    show ?thesis
    proof (cases "addr_bit (add p) b")
      case True
      with cn have rn: "r = NULL" by simp
      from below True Node.prems(3) have t': "t' = Node b pfx l ?new dat" "node = ?new" "created"
        by (auto simp: Let_def)
      from rn glue have pfxn: "pfx \<noteq> None" by auto
      have "radix_inv (Node b pfx l ?new dat)"
      proof (rule radix_inv_NodeI[where rep = "add p"])
        show "case pfx of None \<Rightarrow> l \<noteq> NULL \<and> ?new \<noteq> NULL \<and> dat = None | Some q \<Rightarrow> bitlen q = b"
          using pfxn own by (auto split: option.splits)
        show "\<forall>q\<in>set (prefixes_of ?new). b < bitlen q \<and> addr_bit (add q) b"
          using below True by simp
        show "\<forall>q\<in>set (prefixes_of (Node b pfx l ?new dat)). comp_with_mask (add p) (add q) b"
          using agree below agree_self by (auto simp: set_prefixes_of_Node split: option.splits)
      qed (rule L, rule inv(1), rule radix_inv_leaf)
      with t' rn show ?thesis by (simp add: set_prefixes_of_Node)
    next
      case False
      with cn have ln: "l = NULL" by simp
      from below False Node.prems(3) have t': "t' = Node b pfx ?new r dat" "node = ?new" "created"
        by (auto simp: Let_def)
      from ln glue have pfxn: "pfx \<noteq> None" by auto
      have "radix_inv (Node b pfx ?new r dat)"
      proof (rule radix_inv_NodeI[where rep = "add p"])
        show "case pfx of None \<Rightarrow> ?new \<noteq> NULL \<and> r \<noteq> NULL \<and> dat = None | Some q \<Rightarrow> bitlen q = b"
          using pfxn own by (auto split: option.splits)
        show "\<forall>q\<in>set (prefixes_of ?new). b < bitlen q \<and> \<not> addr_bit (add q) b"
          using below False by simp
        show "\<forall>q\<in>set (prefixes_of (Node b pfx ?new r dat)). comp_with_mask (add p) (add q) b"
          using agree below agree_self by (auto simp: set_prefixes_of_Node split: option.splits)
      qed (rule R, rule radix_inv_leaf, rule inv(2))
      with t' ln show ?thesis by (auto simp: set_prefixes_of_Node)
    qed
  next
    case above
    have side: "\<forall>q\<in>set (prefixes_of ?t). bitlen p < bitlen q \<and>
                  addr_bit (add q) (bitlen p) = addr_bit (add tp) (bitlen p)"
    proof
      fix q assume q: "q \<in> set (prefixes_of ?t)"
      from ge q have "b \<le> bitlen q" by blast
      with above have "bitlen p < bitlen q" by simp
      moreover from PW tp_in q have "comp_with_mask (add tp) (add q) b" by blast
      with above have "addr_bit (add q) (bitlen p) = addr_bit (add tp) (bitlen p)"
        by (simp add: comp_with_mask_iff)
      ultimately show "bitlen p < bitlen q \<and>
        addr_bit (add q) (bitlen p) = addr_bit (add tp) (bitlen p)" by simp
    qed
    have pk: "\<forall>q\<in>set (prefixes_of ?t). comp_with_mask (add p) (add q) (bitlen p)"
      using agree above by simp
    show ?thesis
    proof (cases "addr_bit (add tp) (bitlen p)")
      case True
      with above Node.prems(3)
      have t': "t' = Node (bitlen p) (Some p) NULL ?t None"
        "node = Node (bitlen p) (Some p) NULL ?t None" "created"
        by (auto simp: Let_def)
      have "radix_inv (Node (bitlen p) (Some p) NULL ?t None)"
      proof (rule radix_inv_NodeI[where rep = "add p"])
        show "\<forall>q\<in>set (prefixes_of ?t). bitlen p < bitlen q \<and> addr_bit (add q) (bitlen p)"
          using side True by simp
        show "\<forall>q\<in>set (prefixes_of (Node (bitlen p) (Some p) NULL ?t None)).
                comp_with_mask (add p) (add q) (bitlen p)"
          using pk agree_self by (simp add: set_prefixes_of_Node)
      qed (use Node.prems(1) in simp_all)
      with t' show ?thesis by (simp add: set_prefixes_of_Node)
    next
      case False
      with above Node.prems(3)
      have t': "t' = Node (bitlen p) (Some p) ?t NULL None"
        "node = Node (bitlen p) (Some p) ?t NULL None" "created"
        by (auto simp: Let_def)
      have "radix_inv (Node (bitlen p) (Some p) ?t NULL None)"
      proof (rule radix_inv_NodeI[where rep = "add p"])
        show "\<forall>q\<in>set (prefixes_of ?t). bitlen p < bitlen q \<and> \<not> addr_bit (add q) (bitlen p)"
          using side False by simp
        show "\<forall>q\<in>set (prefixes_of (Node (bitlen p) (Some p) ?t NULL None)).
                comp_with_mask (add p) (add q) (bitlen p)"
          using pk agree_self by (simp add: set_prefixes_of_Node)
      qed (use Node.prems(1) in simp_all)
      with t' show ?thesis by (simp add: set_prefixes_of_Node)
    qed
  next
    case glue
    from ge tp_in have "b \<le> bitlen tp" by blast
    with glue have "d < bitlen tp" by simp
    with A(4) glue have diff: "addr_bit (add p) d \<noteq> addr_bit (add tp) d" by simp
    have side: "\<forall>q\<in>set (prefixes_of ?t). d < bitlen q \<and> addr_bit (add q) d \<noteq> addr_bit (add p) d"
    proof
      fix q assume q: "q \<in> set (prefixes_of ?t)"
      from ge q have "b \<le> bitlen q" by blast
      with glue have "d < bitlen q" by simp
      moreover from PW tp_in q have "comp_with_mask (add tp) (add q) b" by blast
      with glue have "addr_bit (add q) d = addr_bit (add tp) d"
        by (simp add: comp_with_mask_iff)
      ultimately show "d < bitlen q \<and> addr_bit (add q) d \<noteq> addr_bit (add p) d"
        using diff by simp
    qed
    have pk: "\<forall>q\<in>set (prefixes_of ?t). comp_with_mask (add p) (add q) d"
      using agree glue by simp
    from glue have neq: "\<not> b < d" "\<not> (d = bitlen p \<and> b = bitlen p)" "b \<noteq> d" "bitlen p \<noteq> d"
      by simp_all
    show ?thesis
    proof (cases "addr_bit (add p) d")
      case True
      with neq Node.prems(3) have t': "t' = Node d None ?t ?new None" "node = ?new" "created"
        by (auto simp: Let_def)
      have "radix_inv (Node d None ?t ?new None)"
      proof (rule radix_inv_NodeI[where rep = "add p"])
        show "\<forall>q\<in>set (prefixes_of ?t). d < bitlen q \<and> \<not> addr_bit (add q) d"
          using side True by simp
        show "\<forall>q\<in>set (prefixes_of ?new). d < bitlen q \<and> addr_bit (add q) d"
          using glue True by simp
        show "\<forall>q\<in>set (prefixes_of (Node d None ?t ?new None)). comp_with_mask (add p) (add q) d"
          using pk agree_self by (simp add: set_prefixes_of_Node)
      qed (simp, rule Node.prems(1), rule radix_inv_leaf)
      with t' show ?thesis by (auto simp: set_prefixes_of_Node)
    next
      case False
      with neq Node.prems(3) have t': "t' = Node d None ?new ?t None" "node = ?new" "created"
        by (auto simp: Let_def)
      have "radix_inv (Node d None ?new ?t None)"
      proof (rule radix_inv_NodeI[where rep = "add p"])
        show "\<forall>q\<in>set (prefixes_of ?t). d < bitlen q \<and> addr_bit (add q) d"
          using side False by simp
        show "\<forall>q\<in>set (prefixes_of ?new). d < bitlen q \<and> \<not> addr_bit (add q) d"
          using glue False by simp
        show "\<forall>q\<in>set (prefixes_of (Node d None ?new ?t None)). comp_with_mask (add p) (add q) d"
          using pk agree_self by (simp add: set_prefixes_of_Node)
      qed (simp, rule radix_inv_leaf, rule Node.prems(1))
      with t' show ?thesis by (auto simp: set_prefixes_of_Node)
    qed
  qed
qed

section \<open>Node data\<close>

lemma all_nodes_walk:
  "all_nodes P t \<Longrightarrow> n \<in> set (radix_walk t) \<Longrightarrow> P (node_prefix n) (node_data n)"
  by (induction t) auto

lemma all_nodes_mono:
  "all_nodes P t \<Longrightarrow> (\<And>pfx dat. P pfx dat \<Longrightarrow> Q pfx dat) \<Longrightarrow> all_nodes Q t"
  by (induction t) auto

lemma all_nodes_conj: "all_nodes P t \<Longrightarrow> all_nodes Q t \<Longrightarrow> all_nodes (\<lambda>pfx dat. P pfx dat \<and> Q pfx dat) t"
  by (induction t) auto

lemma all_nodes_not_stored:
  "p \<notin> set (prefixes_of t) \<Longrightarrow> all_nodes (\<lambda>pfx dat. pfx \<noteq> Some p) t"
  by (induction t) (auto split: option.splits)

lemma prefixes_of_set_node_data [simp]: "prefixes_of (set_node_data t p v) = prefixes_of t"
  by (induction t) (auto split: option.splits)

lemma set_node_data_NULL [simp]: "set_node_data t p v = NULL \<longleftrightarrow> t = NULL"
  by (cases t) (auto split: option.splits)

lemma radix_inv_set_node_data: "radix_inv t \<Longrightarrow> radix_inv (set_node_data t p v)"
proof (induction t)
  case NULL
  then show ?case by simp
next
  case (Node b pfx l r dat)
  then show ?case
    by (cases pfx) (auto simp: radix_inv_Node)
qed

lemma lookup_place_set_data:
  assumes "P (Some p) v" and "P None None" and "d \<le> bitlen p"
  shows "all_nodes P t \<Longrightarrow> lookup_place t p ta d = (t', node, True) \<Longrightarrow>
         all_nodes P (set_node_data t' p v)"
proof (induction t arbitrary: t')
  case NULL
  with assms show ?case by (auto simp: Let_def prefix_eq_refl)
next
  case (Node b pfx l r dat)
  consider (down) "b < d"
    | (same) "\<not> b < d" "d = bitlen p" "b = bitlen p"
    | (below) "\<not> b < d" "b = d" "d < bitlen p"
    | (above) "d < b" "bitlen p = d"
    | (glue) "d < b" "d < bitlen p"
    using assms(3) by linarith
  then show ?case
  proof cases
    case down
    with assms(3) have bp: "b < bitlen p" by simp
    show ?thesis
    proof (cases "addr_bit (add p) b")
      case True
      obtain r' where lp: "lookup_place r p ta d = (r', node, True)"
        and t': "t' = Node b pfx l r' dat"
        using Node.prems(2) down True by (auto split: prod.splits)
      from Node.IH(2)[OF _ lp] Node.prems(1) have "all_nodes P (set_node_data r' p v)" by simp
      with t' bp True Node.prems(1) show ?thesis by simp
    next
      case False
      obtain l' where lp: "lookup_place l p ta d = (l', node, True)"
        and t': "t' = Node b pfx l' r dat"
        using Node.prems(2) down False by (auto split: prod.splits)
      from Node.IH(1)[OF _ lp] Node.prems(1) have "all_nodes P (set_node_data l' p v)" by simp
      with t' bp False Node.prems(1) show ?thesis by simp
    qed
  next
    case same
    with Node.prems assms show ?thesis
      by (cases pfx) (auto simp: prefix_eq_refl)
  next
    case below
    with Node.prems assms show ?thesis
      by (auto simp: Let_def prefix_eq_refl split: if_splits)
  next
    case above
    with Node.prems assms show ?thesis
      by (auto simp: Let_def prefix_eq_refl split: if_splits)
  next
    case glue
    then have "\<not> b < d" "\<not> (d = bitlen p \<and> b = bitlen p)" "b \<noteq> d" "bitlen p \<noteq> d" by simp_all
    with glue Node.prems assms show ?thesis
      by (auto simp: Let_def prefix_eq_refl split: if_splits)
  qed
qed

lemma differ_bit_all: "comp_with_mask a ta c \<Longrightarrow> differ_bit a ta c = c"
  using differ_bit_props[of a ta c] by (auto simp: comp_with_mask_iff)

lemma search_exact_node_form:
  assumes "radix_inv t" and "q \<in> set (prefixes_of t)" and "prefix_eq q p"
  obtains b l r dat where "search_exact_node t p = Node b (Some q) l r dat"
  using search_exact_node_found[OF assms] by (cases "search_exact_node t p") auto

lemma radix_lookup_found:
  assumes "radix_inv (head t)" and "q \<in> set (prefixes_of (head t))" and "prefix_eq q p"
  shows "radix_lookup t p = Some (t, search_exact_node (head t) p)"
proof -
  from assms(2) have nn: "head t \<noteq> NULL" by auto
  obtain b l r dat where se: "search_exact_node (head t) p = Node b (Some q) l r dat"
    by (rule search_exact_node_form[OF assms])
  with lookup_descend_found[OF assms] have ld: "lookup_descend (head t) p = Node b (Some q) l r dat"
    by simp
  from lookup_descend_data[OF assms(1) nn, of p] ld have b: "b = bitlen q" by auto
  from assms(3) have len: "bitlen q = bitlen p" and cm: "comp_with_mask (add p) (add q) (bitlen p)"
    by (simp_all add: prefix_eq_def comp_with_mask_sym)
  from b len cm have d: "differ_bit (add p) (add q) (min b (bitlen p)) = bitlen p"
    by (simp add: differ_bit_all)
  from lookup_place_found[OF assms, of "add q"] nn ld d se show ?thesis
    by (simp add: radix_lookup_def)
qed

lemma radix_lookup_new:
  assumes "radix_inv (head t)"
    and "\<not> (\<exists>q\<in>set (prefixes_of (head t)).
            bitlen q = bitlen p \<and> comp_with_mask (add p) (add q) (bitlen p))"
  shows "\<exists>t' node. radix_lookup t p = Some (t', node) \<and> radix_inv (head t') \<and>
           set (prefixes_of (head t')) = insert p (set (prefixes_of (head t))) \<and>
           node_prefix node = Some p \<and> node_data node = None \<and> count t' = count t + 1 \<and>
           (\<forall>P v. all_nodes P (head t) \<longrightarrow> P (Some p) v \<longrightarrow> P None None \<longrightarrow>
                 all_nodes P (set_node_data (head t') p v))"
proof (cases "head t = NULL")
  case True
  then show ?thesis
    by (auto simp: radix_lookup_def Let_def radix_inv_leaf prefix_eq_refl)
next
  case False
  from lookup_descend_data[OF assms(1) False, of p] obtain tp nl nr nd where
    ld: "lookup_descend (head t) p = Node (bitlen tp) (Some tp) nl nr nd" by blast
  define d where "d = differ_bit (add p) (add tp) (min (bitlen tp) (bitlen p))"
  from differ_bit_props[of "add p" "add tp" "min (bitlen tp) (bitlen p)"]
  have d1: "d \<le> bitlen p" and d2: "d \<le> bitlen tp" and d3: "comp_with_mask (add p) (add tp) d"
    and d4: "d < bitlen p \<Longrightarrow> d < bitlen tp \<Longrightarrow> addr_bit (add p) d \<noteq> addr_bit (add tp) d"
    by (simp_all add: d_def)
  obtain h' node created where lp: "lookup_place (head t) p (add tp) d = (h', node, created)"
    by (cases "lookup_place (head t) p (add tp) d") auto
  from lookup_place_inv[OF assms(1) ld d1 d2 d3 d4 lp]
  have inv': "radix_inv h'"
    and imp1: "created \<longrightarrow> set (prefixes_of h') = insert p (set (prefixes_of (head t))) \<and>
                 node_prefix node = Some p \<and> node_data node = None"
    and imp2: "\<not> created \<longrightarrow> (\<exists>q\<in>set (prefixes_of (head t)).
                 bitlen q = bitlen p \<and> comp_with_mask (add p) (add q) (bitlen p))"
    by blast+
  from imp2 assms(2) have cr: "created" by blast
  with imp1 have ks: "set (prefixes_of h') = insert p (set (prefixes_of (head t)))"
    and nd: "node_prefix node = Some p" "node_data node = None" by simp_all
  have hp: "\<forall>P v. all_nodes P (head t) \<longrightarrow> P (Some p) v \<longrightarrow> P None None \<longrightarrow>
                 all_nodes P (set_node_data h' p v)"
  proof (intro allI impI)
    fix P v
    assume a: "all_nodes P (head t)" "P (Some p) v" "P None None"
    from lp cr have "lookup_place (head t) p (add tp) d = (h', node, True)" by simp
    from lookup_place_set_data[OF a(2) a(3) d1 a(1) this]
    show "all_nodes P (set_node_data h' p v)" .
  qed
  from False ld lp cr have "radix_lookup t p = Some (t\<lparr>head := h', count := count t + 1\<rparr>, node)"
    by (simp add: radix_lookup_def Let_def d_def)
  with inv' ks nd hp show ?thesis by simp
qed

section \<open>Valid prefixes\<close>

lemma byte_bits_eq:
  fixes x y :: byte
  assumes "\<And>n. n < 8 \<Longrightarrow> bit x n = bit y n"
  shows "x = y"
proof (rule bit_eqI)
  fix n
  assume "possible_bit TYPE(byte) n"
  then have "n < 8" by (simp add: possible_bit_word)
  then show "bit x n = bit y n" by (rule assms)
qed

lemma addr_ext:
  assumes "length a = length b" and "\<And>i. i < 8 * length a \<Longrightarrow> addr_bit a i = addr_bit b i"
  shows "a = b"
proof (rule nth_equalityI)
  show "length a = length b" by (rule assms(1))
next
  fix j
  assume j: "j < length a"
  show "a ! j = b ! j"
  proof (rule byte_bits_eq)
    fix n :: nat
    assume n: "n < 8"
    define k where "k = 7 - n"
    with n have k: "k < 8" "7 - k = n" by simp_all
    have i: "(8 * j + k) div 8 = j" "(8 * j + k) mod 8 = k" using k by simp_all
    have "8 * j + k < 8 * length a" using j k by simp
    from assms(2)[OF this] j assms(1) k show "bit (a ! j) n = bit (b ! j) n"
      by (simp add: addr_bit_def i)
  qed
qed

lemma valid_prefix_bits:
  "valid_prefix p \<Longrightarrow> bitlen p \<le> i \<Longrightarrow> i < 8 * length (add p) \<Longrightarrow> \<not> addr_bit (add p) i"
  by (auto simp: valid_prefix_def list_all_iff)

lemma valid_prefix_eq:
  assumes "valid_prefix q" and "valid_prefix p" and "prefix_eq q p"
  shows "q = p"
proof -
  from assms(3) have fam: "family q = family p" and len: "bitlen q = bitlen p"
    and bits: "comp_with_mask (add q) (add p) (bitlen p)" by (simp_all add: prefix_eq_def)
  from assms(1,2) fam have l: "length (add q) = length (add p)"
    by (simp add: valid_prefix_def)
  have "add q = add p"
  proof (rule addr_ext[OF l])
    fix i
    assume i: "i < 8 * length (add q)"
    show "addr_bit (add q) i = addr_bit (add p) i"
    proof (cases "i < bitlen p")
      case True
      with bits show ?thesis by (simp add: comp_with_mask_iff)
    next
      case False
      with valid_prefix_bits[OF assms(1), of i] valid_prefix_bits[OF assms(2), of i] i l len
      show ?thesis by simp
    qed
  qed
  with fam len show ?thesis by simp
qed

section \<open>Adding a prefix\<close>

lemma handle_ok_append:
  "handle_ok lib os pfx dat \<Longrightarrow> handle_ok lib (os @ [ob]) pfx dat"
  by (auto simp: handle_ok_def nth_append split: option.splits)

lemma state_inv_new: "state_inv lib radix_Radix"
  by (simp add: state_inv_def radix_Radix_def newRadixObject_def New_Radix_def)

lemma state_inv_stored:
  assumes "state_inv lib s" and "q \<in> set (prefixes_of (head (rt (radix s))))"
  shows "valid_prefix q" and "tree_family (radix s) = Some (family q)"
  using assms by (auto simp: state_inv_def list_all_iff)

lemma state_inv_found:
  assumes "state_inv lib s" and "q \<in> set (prefixes_of (head (rt (radix s))))"
    and "prefix_eq q p"
  shows "\<exists>k. node_data (search_exact_node (head (rt (radix s))) p) = Some k \<and>
             search_exact_node (head (rt (radix s))) p \<noteq> NULL \<and>
             handle_ok lib (objs s) (Some q) (Some k)"
proof -
  let ?h = "head (rt (radix s))"
  from assms(1) have inv: "radix_inv ?h" and hs: "all_nodes (handle_ok lib (objs s)) ?h"
    by (simp_all add: state_inv_def)
  from search_exact_node_found[OF inv assms(2,3)]
  have pf: "node_prefix (search_exact_node ?h p) = Some q" .
  then have nn: "search_exact_node ?h p \<noteq> NULL" by auto
  from all_nodes_walk[OF hs search_exact_node_walk[OF nn]] pf
  have "handle_ok lib (objs s) (Some q) (node_data (search_exact_node ?h p))" by simp
  with nn show ?thesis by (cases "node_data (search_exact_node ?h p)") (auto simp: handle_ok_def)
qed

lemma rt_update_same: "s\<lparr>radix := (radix s)\<lparr>rt := rt (radix s)\<rparr>\<rparr> = s"
  by simp

lemma Radix_add_node_found:
  assumes "state_inv lib s" and "q \<in> set (prefixes_of (head (rt (radix s))))"
    and "prefix_eq q p"
  shows "\<exists>k. node_data (search_exact_node (head (rt (radix s))) p) = Some k \<and>
             handle_ok lib (objs s) (Some q) (Some k) \<and>
             Radix_add_node lib p s =
               (Inr k, s\<lparr>radix := (radix s)\<lparr>gen_id := gen_id (radix s) + 1\<rparr>\<rparr>)"
proof -
  from assms(1) have inv: "radix_inv (head (rt (radix s)))" by (simp add: state_inv_def)
  from state_inv_found[OF assms] obtain k where
    k: "node_data (search_exact_node (head (rt (radix s))) p) = Some k"
    and ok: "handle_ok lib (objs s) (Some q) (Some k)" by blast
  from radix_lookup_found[OF inv assms(2,3)] k
  have "Radix_add_node lib p s =
          (Inr k, s\<lparr>radix := (radix s)\<lparr>gen_id := gen_id (radix s) + 1\<rparr>\<rparr>)"
    by (simp add: Radix_add_node_def)
  with k ok show ?thesis by blast
qed

lemma Radix_add_node_new:
  assumes "state_inv lib s" and "valid_prefix p"
    and "tree_family (radix s) = Some (family p)"
    and "\<not> (\<exists>q\<in>set (prefixes_of (head (rt (radix s)))). prefix_eq q p)"
  shows "\<exists>s'. Radix_add_node lib p s = (Inr (length (objs s)), s') \<and> state_inv lib s' \<and>
           node_data (search_exact_node (head (rt (radix s'))) p) = Some (length (objs s)) \<and>
           handle_ok lib (objs s') (Some p) (Some (length (objs s))) \<and>
           set (prefixes_of (head (rt (radix s')))) =
             insert p (set (prefixes_of (head (rt (radix s))))) \<and>
           count (rt (radix s')) = count (rt (radix s)) + 1 \<and>
           gen_id (radix s') = gen_id (radix s) + 1 \<and>
           tree_family (radix s') = tree_family (radix s)"
proof -
  let ?t = "rt (radix s)"
  let ?k = "length (objs s)"
  from assms(1) have inv: "radix_inv (head ?t)"
    and hs: "all_nodes (handle_ok lib (objs s)) (head ?t)"
    by (simp_all add: state_inv_def)
  have nf: "\<not> (\<exists>q\<in>set (prefixes_of (head ?t)).
            bitlen q = bitlen p \<and> comp_with_mask (add p) (add q) (bitlen p))"
  proof
    assume "\<exists>q\<in>set (prefixes_of (head ?t)).
            bitlen q = bitlen p \<and> comp_with_mask (add p) (add q) (bitlen p)"
    then obtain q where q: "q \<in> set (prefixes_of (head ?t))" "bitlen q = bitlen p"
      "comp_with_mask (add p) (add q) (bitlen p)" by blast
    from state_inv_stored(2)[OF assms(1) q(1)] assms(3) have "family q = family p" by simp
    with q have "prefix_eq q p" by (simp add: prefix_eq_def comp_with_mask_sym)
    with q(1) assms(4) show False by blast
  qed
  from radix_lookup_new[OF inv nf] obtain t' node where
    rl: "radix_lookup ?t p = Some (t', node)" and inv': "radix_inv (head t')"
    and ks: "set (prefixes_of (head t')) = insert p (set (prefixes_of (head ?t)))"
    and nd: "node_prefix node = Some p" "node_data node = None"
    and cnt: "count t' = count ?t + 1"
    and hp: "\<And>P v. all_nodes P (head ?t) \<Longrightarrow> P (Some p) v \<Longrightarrow> P None None \<Longrightarrow>
                 all_nodes P (set_node_data (head t') p v)"
    by blast
  from nd obtain ob where ob: "newRadixNodeObject lib node = Some ob"
    and obf: "prefix ob = prefix_ntop lib p" "prefixlen ob = int (bitlen p)"
      "node_family ob = family p"
    by (cases node) (auto simp: newRadixNodeObject_def)
  let ?os = "objs s @ [ob]"
  let ?h = "set_node_data (head t') p (Some ?k)"
  let ?s' = "s\<lparr>objs := ?os, radix := (radix s)\<lparr>rt := t'\<lparr>head := ?h\<rparr>,
                 gen_id := gen_id (radix s) + 1\<rparr>\<rparr>"
  from rl nd ob have res: "Radix_add_node lib p s = (Inr ?k, ?s')"
    by (simp add: Radix_add_node_def Let_def)
  let ?P = "\<lambda>pfx dat. handle_ok lib ?os pfx dat \<and> (pfx = Some p \<longrightarrow> dat = Some ?k)"
  have pnew: "handle_ok lib ?os (Some p) (Some ?k)"
    using obf by (simp add: handle_ok_def)
  from assms(4) have "p \<notin> set (prefixes_of (head ?t))" using prefix_eq_refl by blast
  note both = all_nodes_conj[OF all_nodes_mono[OF hs handle_ok_append[where ob = ob]]
      all_nodes_not_stored[OF this]]
  have "all_nodes ?P (head ?t)"
  proof (rule all_nodes_mono[OF both])
    fix pfx dat
    assume "handle_ok lib ?os pfx dat \<and> pfx \<noteq> Some p"
    then show "handle_ok lib ?os pfx dat \<and> (pfx = Some p \<longrightarrow> dat = Some ?k)" by simp
  qed
  from hp[of ?P, OF this] pnew have all: "all_nodes ?P ?h" by (simp add: handle_ok_def)
  have inv_h: "radix_inv ?h" by (rule radix_inv_set_node_data[OF inv'])
  have pin: "p \<in> set (prefixes_of ?h)" using ks by simp
  from search_exact_node_found[OF inv_h pin prefix_eq_refl]
  have pf: "node_prefix (search_exact_node ?h p) = Some p" .
  then have "search_exact_node ?h p \<noteq> NULL" by auto
  from all_nodes_walk[OF all search_exact_node_walk[OF this]] pf
  have found: "node_data (search_exact_node ?h p) = Some ?k" by simp
  have "state_inv lib ?s'"
    using inv_h ks assms(1,2,3) all_nodes_mono[OF all, of "handle_ok lib ?os"]
    by (auto simp: state_inv_def list_all_iff)
  with res found pnew ks cnt show ?thesis by simp
qed


lemma state_inv_gen:
  "state_inv lib (s\<lparr>radix := (radix s)\<lparr>gen_id := g\<rparr>\<rparr>) = state_inv lib s"
  by (simp add: state_inv_def)

lemma state_inv_bind:
  assumes "state_inv lib s" and "tree_family (radix s) = None"
  shows "state_inv lib (s\<lparr>radix := (radix s)\<lparr>tree_family := Some f\<rparr>\<rparr>)"
    and "prefixes_of (head (rt (radix s))) = []"
proof -
  from assms show e: "prefixes_of (head (rt (radix s))) = []"
    by (cases "prefixes_of (head (rt (radix s)))") (auto simp: state_inv_def)
  with assms(1) show "state_inv lib (s\<lparr>radix := (radix s)\<lparr>tree_family := Some f\<rparr>\<rparr>)"
    by (simp add: state_inv_def)
qed

lemma Radix_search_exact_found:
  assumes "args_to_prefix lib a = Inr p"
    and "node_data (search_exact_node (head (rt (radix s))) p) = Some k"
  shows "Radix_search_exact lib a s = (Inr (Some k), s)"
proof -
  from assms(2) have "search_exact_node (head (rt (radix s))) p \<noteq> NULL" by auto
  with assms show ?thesis by (simp add: Radix_search_exact_def radix_search_exact_def)
qed

lemma Radix_add_stored:
  assumes "args_to_prefix lib a = Inr p" and "state_inv lib s"
    and "q \<in> set (prefixes_of (head (rt (radix s))))" and "prefix_eq q p"
  shows "\<exists>k. node_data (search_exact_node (head (rt (radix s))) p) = Some k \<and>
             handle_ok lib (objs s) (Some q) (Some k) \<and>
             Radix_add lib a s = (Inr k, s\<lparr>radix := (radix s)\<lparr>gen_id := gen_id (radix s) + 1\<rparr>\<rparr>)"
proof -
  from state_inv_stored(2)[OF assms(2,3)] assms(4)
  have "tree_family (radix s) = Some (family p)" by (simp add: prefix_eq_def)
  with assms(1) have "Radix_add lib a s = Radix_add_node lib p s" by (simp add: Radix_add_def)
  with Radix_add_node_found[OF assms(2-4)] show ?thesis by simp
qed

lemma Radix_add_valid:
  assumes "args_to_prefix lib a = Inr p" and "valid_prefix p" and "state_inv lib s"
    and "tree_family (radix s) = None \<or> tree_family (radix s) = Some (family p)"
  shows "\<exists>k s'. Radix_add lib a s = (Inr k, s') \<and> state_inv lib s' \<and>
           node_data (search_exact_node (head (rt (radix s'))) p) = Some k \<and>
           handle_ok lib (objs s') (Some p) (Some k) \<and>
           tree_family (radix s') = Some (family p)"
proof -
  define s0 where "s0 = (if tree_family (radix s) = None
                         then s\<lparr>radix := (radix s)\<lparr>tree_family := Some (family p)\<rparr>\<rparr> else s)"
  from assms(1,4) have add: "Radix_add lib a s = Radix_add_node lib p s0"
    by (auto simp: Radix_add_def s0_def)
  from assms(3,4) have inv0: "state_inv lib s0"
    by (auto simp: s0_def state_inv_bind(1))
  from assms(4) have fam0: "tree_family (radix s0) = Some (family p)" by (auto simp: s0_def)
  show ?thesis
  proof (cases "\<exists>q\<in>set (prefixes_of (head (rt (radix s0)))). prefix_eq q p")
    case True
    then obtain q where q: "q \<in> set (prefixes_of (head (rt (radix s0))))" "prefix_eq q p" by blast
    from valid_prefix_eq[OF state_inv_stored(1)[OF inv0 q(1)] assms(2) q(2)] have qp: "q = p" .
    from Radix_add_node_found[OF inv0 q] obtain k where
      k: "node_data (search_exact_node (head (rt (radix s0))) p) = Some k"
      and ok: "handle_ok lib (objs s0) (Some q) (Some k)"
      and res: "Radix_add_node lib p s0 =
                  (Inr k, s0\<lparr>radix := (radix s0)\<lparr>gen_id := gen_id (radix s0) + 1\<rparr>\<rparr>)" by blast
    from add res k ok qp inv0 fam0 show ?thesis by (simp add: state_inv_gen)
  next
    case False
    from Radix_add_node_new[OF inv0 assms(2) fam0 False] add fam0 show ?thesis by auto
  qed
qed

text \<open>
  Claim C2. On a state of the invariant \<open>state_inv\<close> whose family is unbound or that
  of the valid prefix \<open>p\<close>, \<^verbatim>\<open>add\<close> of \<open>p\<close> returns a handle, and \<^verbatim>\<open>search_exact\<close> of \<open>p\<close> on the
  resulting state returns that handle; its fields \<^verbatim>\<open>prefix\<close>, \<^verbatim>\<open>prefixlen\<close> and
  \<^verbatim>\<open>family\<close> are the printed form (\<^verbatim>\<open>prefix_ntop\<close>), the bit length and the family
  of \<open>p\<close>.
\<close>

theorem add_then_search_exact:
  assumes "args_to_prefix lib a = Inr p" and "valid_prefix p" and "state_inv lib s"
    and "tree_family (radix s) = None \<or> tree_family (radix s) = Some (family p)"
  shows "\<exists>k s'. Radix_add lib a s = (Inr k, s') \<and>
           Radix_search_exact lib a s' = (Inr (Some k), s') \<and>
           k < length (objs s') \<and>
           prefix (objs s' ! k) = prefix_ntop lib p \<and>
           prefixlen (objs s' ! k) = int (bitlen p) \<and>
           node_family (objs s' ! k) = family p"
proof -
  from Radix_add_valid[OF assms] obtain k s' where
    res: "Radix_add lib a s = (Inr k, s')"
    and k: "node_data (search_exact_node (head (rt (radix s'))) p) = Some k"
    and ok: "handle_ok lib (objs s') (Some p) (Some k)" by blast
  from Radix_search_exact_found[OF assms(1) k] res ok show ?thesis
    by (simp add: handle_ok_def)
qed

lemma Radix_add_twice:
  assumes "args_to_prefix lib a = Inr p" and "valid_prefix p" and "state_inv lib s"
    and "tree_family (radix s) = None \<or> tree_family (radix s) = Some (family p)"
    and "Radix_add lib a s = (Inr k, s1)"
  shows "Radix_add lib a s1 =
           (Inr k, s1\<lparr>radix := (radix s1)\<lparr>gen_id := gen_id (radix s1) + 1\<rparr>\<rparr>)"
proof -
  from Radix_add_valid[OF assms(1-4)] assms(5)
  have inv1: "state_inv lib s1"
    and k: "node_data (search_exact_node (head (rt (radix s1))) p) = Some k" by auto
  from k have "search_exact_node (head (rt (radix s1))) p \<noteq> NULL" by auto
  from search_exact_node_stored[OF this] obtain q where
    q: "q \<in> set (prefixes_of (head (rt (radix s1))))" "prefix_eq q p"
    by (auto simp: list_ex_iff)
  from Radix_add_stored[OF assms(1) inv1 q] k show ?thesis by auto
qed

text \<open>
  Claim C3. On a state of the invariant \<open>state_inv\<close> that stores the prefix \<open>p\<close>, \<^verbatim>\<open>add\<close> of \<open>p\<close>
  returns the node object that is already there, the one \<^verbatim>\<open>search_exact\<close> returns (so
  what is written to its \<^verbatim>\<open>data\<close> through one handle is read through the other), and
  the state it leaves differs only in the generation counter, which is one more: root,
  count and node objects are as before. In particular, when \<^verbatim>\<open>add\<close> of a valid prefix
  has returned a handle, \<^verbatim>\<open>add\<close> of the same prefix on the resulting state returns the
  same handle and changes the generation counter only.
\<close>

theorem add_again_same_handle:
  assumes "args_to_prefix lib a = Inr p" and "state_inv lib s"
  shows "(list_ex (\<lambda>q. prefix_eq q p) (prefixes_of (head (rt (radix s)))) \<longrightarrow>
          (\<exists>k. Radix_search_exact lib a s = (Inr (Some k), s) \<and>
             Radix_add lib a s =
               (Inr k, s\<lparr>radix := (radix s)\<lparr>gen_id := gen_id (radix s) + 1\<rparr>\<rparr>) \<and>
             count (rt (radix (snd (Radix_add lib a s)))) = count (rt (radix s)) \<and>
             head (rt (radix (snd (Radix_add lib a s)))) = head (rt (radix s)) \<and>
             objs (snd (Radix_add lib a s)) = objs s \<and>
             gen_id (radix (snd (Radix_add lib a s))) = gen_id (radix s) + 1 \<and>
             (\<forall>key v. data_read k key (data_write k key v (snd (Radix_add lib a s))) = Some v))) \<and>
         (valid_prefix p \<longrightarrow>
          (tree_family (radix s) = None \<or> tree_family (radix s) = Some (family p)) \<longrightarrow>
          (\<forall>k s1. Radix_add lib a s = (Inr k, s1) \<longrightarrow>
             Radix_add lib a s1 =
               (Inr k, s1\<lparr>radix := (radix s1)\<lparr>gen_id := gen_id (radix s1) + 1\<rparr>\<rparr>)))"
proof (intro conjI impI allI)
  assume "list_ex (\<lambda>q. prefix_eq q p) (prefixes_of (head (rt (radix s))))"
  then obtain q where q: "q \<in> set (prefixes_of (head (rt (radix s))))" "prefix_eq q p"
    by (auto simp: list_ex_iff)
  from Radix_add_stored[OF assms(1,2) q] obtain k where
    k: "node_data (search_exact_node (head (rt (radix s))) p) = Some k"
    and ok: "handle_ok lib (objs s) (Some q) (Some k)"
    and res: "Radix_add lib a s =
                (Inr k, s\<lparr>radix := (radix s)\<lparr>gen_id := gen_id (radix s) + 1\<rparr>\<rparr>)" by blast
  from ok have "k < length (objs s)" by (simp add: handle_ok_def)
  with Radix_search_exact_found[OF assms(1) k] res
  show "\<exists>k. Radix_search_exact lib a s = (Inr (Some k), s) \<and>
             Radix_add lib a s =
               (Inr k, s\<lparr>radix := (radix s)\<lparr>gen_id := gen_id (radix s) + 1\<rparr>\<rparr>) \<and>
             count (rt (radix (snd (Radix_add lib a s)))) = count (rt (radix s)) \<and>
             head (rt (radix (snd (Radix_add lib a s)))) = head (rt (radix s)) \<and>
             objs (snd (Radix_add lib a s)) = objs s \<and>
             gen_id (radix (snd (Radix_add lib a s))) = gen_id (radix s) + 1 \<and>
             (\<forall>key v. data_read k key (data_write k key v (snd (Radix_add lib a s))) = Some v)"
    by (simp add: data_read_def data_write_def)
next
  fix k s1
  assume v: "valid_prefix p"
    and f: "tree_family (radix s) = None \<or> tree_family (radix s) = Some (family p)"
    and r: "Radix_add lib a s = (Inr k, s1)"
  from Radix_add_twice[OF assms(1) v assms(2) f r] show "Radix_add lib a s1 =
      (Inr k, s1\<lparr>radix := (radix s1)\<lparr>gen_id := gen_id (radix s1) + 1\<rparr>\<rparr>)" .
qed

lemma arg_10_1_16: "args_to_prefix example_h (text_arg ''10.1.0.0/16'') = Inr pfx_10_1_16"
  by code_simp

lemma valid_10_1_16: "valid_prefix pfx_10_1_16"
  by code_simp

theorem add_then_search_exact_witness:
  "args_to_prefix example_h (text_arg ''10.1.0.0/16'') = Inr pfx_10_1_16 \<and>
   valid_prefix pfx_10_1_16 \<and> state_inv example_h state_10_8 \<and>
   tree_family (radix state_10_8) = Some (family pfx_10_1_16) \<and>
   (\<exists>k s'. Radix_add example_h (text_arg ''10.1.0.0/16'') state_10_8 = (Inr k, s') \<and>
      Radix_search_exact example_h (text_arg ''10.1.0.0/16'') s' = (Inr (Some k), s') \<and>
      k < length (objs s') \<and>
      prefix (objs s' ! k) = prefix_ntop example_h pfx_10_1_16 \<and>
      prefixlen (objs s' ! k) = int (bitlen pfx_10_1_16) \<and>
      node_family (objs s' ! k) = family pfx_10_1_16)"
proof -
  have fam: "tree_family (radix state_10_8) = Some (family pfx_10_1_16)"
    by (simp add: state_10_8_def pfx_10_1_16_def)
  then have h: "tree_family (radix state_10_8) = None \<or>
                tree_family (radix state_10_8) = Some (family pfx_10_1_16)" by simp
  from add_then_search_exact[OF arg_10_1_16 valid_10_1_16 state_10_8_inv h]
  show ?thesis using arg_10_1_16 valid_10_1_16 state_10_8_inv fam by (intro conjI)
qed

lemma state_10_8_stores:
  "list_ex (\<lambda>q. prefix_eq q pfx_10_8) (prefixes_of (head (rt (radix state_10_8))))"
  by code_simp

lemma valid_10_8: "valid_prefix pfx_10_8"
  by code_simp

theorem add_again_same_handle_witness:
  "args_to_prefix example_h (text_arg ''10.0.0.0/8'') = Inr pfx_10_8 \<and>
   state_inv example_h state_10_8 \<and> state_inv example_h radix_Radix \<and>
   valid_prefix pfx_10_8 \<and> tree_family (radix radix_Radix) = None \<and>
   list_ex (\<lambda>q. prefix_eq q pfx_10_8) (prefixes_of (head (rt (radix state_10_8)))) \<and>
   Radix_add example_h (text_arg ''10.0.0.0/8'') radix_Radix = (Inr 0, state_10_8) \<and>
   Radix_add example_h (text_arg ''10.0.0.0/8'') state_10_8 =
     (Inr 0, state_10_8\<lparr>radix := (radix state_10_8)
                 \<lparr>gen_id := gen_id (radix state_10_8) + 1\<rparr>\<rparr>) \<and>
   (\<exists>k. Radix_search_exact example_h (text_arg ''10.0.0.0/8'') state_10_8 =
           (Inr (Some k), state_10_8) \<and>
        Radix_add example_h (text_arg ''10.0.0.0/8'') state_10_8 =
          (Inr k, state_10_8\<lparr>radix := (radix state_10_8)
                      \<lparr>gen_id := gen_id (radix state_10_8) + 1\<rparr>\<rparr>))"
proof -
  have none: "tree_family (radix radix_Radix) = None"
    by (simp add: radix_Radix_def newRadixObject_def)
  from add_again_same_handle[OF arg_10_8 state_10_8_inv] state_10_8_stores
  have 1: "\<exists>k. Radix_search_exact example_h (text_arg ''10.0.0.0/8'') state_10_8 =
           (Inr (Some k), state_10_8) \<and>
        Radix_add example_h (text_arg ''10.0.0.0/8'') state_10_8 =
          (Inr k, state_10_8\<lparr>radix := (radix state_10_8)
                      \<lparr>gen_id := gen_id (radix state_10_8) + 1\<rparr>\<rparr>)" by blast
  from add_again_same_handle[OF arg_10_8 state_inv_new] valid_10_8 none
    state_10_8_reached
  have 2: "Radix_add example_h (text_arg ''10.0.0.0/8'') state_10_8 =
     (Inr 0, state_10_8\<lparr>radix := (radix state_10_8)
                 \<lparr>gen_id := gen_id (radix state_10_8) + 1\<rparr>\<rparr>)" by blast
  from 1 2 show ?thesis
    using arg_10_8 state_10_8_inv state_inv_new valid_10_8 none state_10_8_stores
      state_10_8_reached
    by (intro conjI)
qed

section \<open>The longest match\<close>

lemma search_best_node_correct:
  assumes "radix_inv t"
    and "best = NULL \<or>
         (\<exists>q0. node_prefix best = Some q0 \<and> (\<forall>q\<in>set (prefixes_of t). bitlen q0 < bitlen q))"
  shows "if (\<exists>q\<in>set (prefixes_of t). prefix_contains q p)
         then (\<exists>q\<in>set (prefixes_of t). prefix_contains q p \<and>
                 node_prefix (search_best_node t p best) = Some q \<and>
                 search_best_node t p best \<in> set (radix_walk t) \<and>
                 (\<forall>q'\<in>set (prefixes_of t). prefix_contains q' p \<longrightarrow> bitlen q' \<le> bitlen q))
         else search_best_node t p best = best"
  using assms
proof (induction t arbitrary: best)
  case NULL
  then show ?case by simp
next
  case (Node b pfx l r dat)
  let ?t = "Node b pfx l r dat"
  from Node.prems(1) have inv: "radix_inv l" "radix_inv r"
    and L: "\<forall>q\<in>set (prefixes_of l). b < bitlen q \<and> \<not> addr_bit (add q) b"
    and R: "\<forall>q\<in>set (prefixes_of r). b < bitlen q \<and> addr_bit (add q) b"
    and own: "\<And>q. pfx = Some q \<Longrightarrow> bitlen q = b"
    by (auto simp: radix_inv_Node)
  define ownc where "ownc = (\<exists>q. pfx = Some q \<and> prefix_contains q p)"
  define best' where "best' = (if ownc then ?t else best)"
  have longer: "\<And>q q0. pfx = Some q \<Longrightarrow> node_prefix best = Some q0 \<Longrightarrow> bitlen q0 \<le> bitlen q"
    using Node.prems(2) by (auto simp: set_prefixes_of_Node)
  have step: "search_best_node ?t p best =
      (if b < bitlen p then search_best_node (if addr_bit (add p) b then r else l) p best'
       else best')"
  proof (cases pfx)
    case None
    then show ?thesis by (simp add: best'_def ownc_def)
  next
    case (Some q)
    with longer[OF Some] show ?thesis
      by (cases "node_prefix best") (simp_all add: best'_def ownc_def Let_def)
  qed
  have own_only: "\<And>c. (\<forall>q\<in>set (prefixes_of c). \<not> prefix_contains q p) \<Longrightarrow>
      (\<forall>q\<in>set (prefixes_of l) \<union> set (prefixes_of r). q \<in> set (prefixes_of c) \<or> \<not> prefix_contains q p) \<Longrightarrow>
      (if (\<exists>q\<in>set (prefixes_of ?t). prefix_contains q p)
       then (\<exists>q\<in>set (prefixes_of ?t). prefix_contains q p \<and> node_prefix best' = Some q \<and>
               best' \<in> set (radix_walk ?t) \<and>
               (\<forall>q'\<in>set (prefixes_of ?t). prefix_contains q' p \<longrightarrow> bitlen q' \<le> bitlen q))
       else best' = best)"
    by (auto simp: best'_def ownc_def set_prefixes_of_Node split: option.splits)
  show ?case
  proof (cases "b < bitlen p")
    case False
    have "\<forall>q\<in>set (prefixes_of l) \<union> set (prefixes_of r). \<not> prefix_contains q p"
      using L R False by (auto simp: prefix_contains_def)
    then have o2: "\<forall>q\<in>set (prefixes_of l) \<union> set (prefixes_of r).
        q \<in> set (prefixes_of NULL) \<or> \<not> prefix_contains q p" by simp
    from False have eq: "search_best_node ?t p best = best'" by (subst step) simp
    show ?thesis unfolding eq by (rule own_only[of NULL, OF _ o2]) simp
  next
    case True
    let ?c = "if addr_bit (add p) b then r else l"
    have other: "\<forall>q\<in>set (prefixes_of l) \<union> set (prefixes_of r).
        q \<in> set (prefixes_of ?c) \<or> \<not> prefix_contains q p"
    proof
      fix q assume q: "q \<in> set (prefixes_of l) \<union> set (prefixes_of r)"
      show "q \<in> set (prefixes_of ?c) \<or> \<not> prefix_contains q p"
      proof (rule disjCI)
        assume "\<not> \<not> prefix_contains q p"
        then have c: "bitlen q \<le> bitlen p" "comp_with_mask (add q) (add p) (bitlen q)"
          by (simp_all add: prefix_contains_def)
        from q L R have "b < bitlen q" by auto
        with c have "addr_bit (add q) b = addr_bit (add p) b" by (simp add: comp_with_mask_iff)
        with q L R show "q \<in> set (prefixes_of ?c)" by auto
      qed
    qed
    have invc: "radix_inv ?c" using inv by simp
    have pre: "best' = NULL \<or>
         (\<exists>q0. node_prefix best' = Some q0 \<and> (\<forall>q\<in>set (prefixes_of ?c). bitlen q0 < bitlen q))"
    proof (cases ownc)
      case True
      then obtain q where "pfx = Some q" by (auto simp: ownc_def)
      with own[OF this] True L R show ?thesis by (auto simp: best'_def)
    next
      case False
      with Node.prems(2) show ?thesis
        by (auto simp: best'_def set_prefixes_of_Node)
    qed
    note IH = Node.IH(1)[OF inv(1), of best'] Node.IH(2)[OF inv(2), of best']
    have ih: "if (\<exists>q\<in>set (prefixes_of ?c). prefix_contains q p)
         then (\<exists>q\<in>set (prefixes_of ?c). prefix_contains q p \<and>
                 node_prefix (search_best_node ?c p best') = Some q \<and>
                 search_best_node ?c p best' \<in> set (radix_walk ?c) \<and>
                 (\<forall>q'\<in>set (prefixes_of ?c). prefix_contains q' p \<longrightarrow> bitlen q' \<le> bitlen q))
         else search_best_node ?c p best' = best'"
      using IH pre by (cases "addr_bit (add p) b") simp_all
    show ?thesis
    proof (cases "\<exists>q\<in>set (prefixes_of ?c). prefix_contains q p")
      case False
      with ih have "search_best_node ?c p best' = best'" by simp
      with \<open>b < bitlen p\<close> have eq: "search_best_node ?t p best = best'" by (subst step) simp
      from False have o1: "\<forall>q\<in>set (prefixes_of ?c). \<not> prefix_contains q p" by blast
      show ?thesis unfolding eq by (rule own_only[of ?c, OF o1 other])
    next
      case True
      with ih obtain q where q: "q \<in> set (prefixes_of ?c)" "prefix_contains q p"
        "node_prefix (search_best_node ?c p best') = Some q"
        "search_best_node ?c p best' \<in> set (radix_walk ?c)"
        "\<forall>q'\<in>set (prefixes_of ?c). prefix_contains q' p \<longrightarrow> bitlen q' \<le> bitlen q"
        by auto
      from q(1) L R have bq: "b < bitlen q" by (auto split: if_splits)
      have qin: "q \<in> set (prefixes_of ?t)" using q(1) by (auto simp: set_prefixes_of_Node split: if_splits)
      have win: "search_best_node ?c p best' \<in> set (radix_walk ?t)"
        using q(4) by (auto split: if_splits)
      have mx: "\<forall>q'\<in>set (prefixes_of ?t). prefix_contains q' p \<longrightarrow> bitlen q' \<le> bitlen q"
      proof (intro ballI impI)
        fix q' assume q': "q' \<in> set (prefixes_of ?t)" "prefix_contains q' p"
        show "bitlen q' \<le> bitlen q"
        proof (cases "pfx = Some q'")
          case True
          with own bq show ?thesis by simp
        next
          case False
          with q'(1) have "q' \<in> set (prefixes_of l) \<union> set (prefixes_of r)"
            by (auto simp: set_prefixes_of_Node split: option.splits)
          with other q'(2) have "q' \<in> set (prefixes_of ?c)" by blast
          with q(5) q'(2) show ?thesis by blast
        qed
      qed
      from \<open>b < bitlen p\<close>
      have eq: "search_best_node ?t p best = search_best_node ?c p best'" by (subst step) simp
      have ex: "\<exists>q\<in>set (prefixes_of ?t). prefix_contains q p" using qin q(2) by blast
      have "\<exists>q\<in>set (prefixes_of ?t). prefix_contains q p \<and>
                 node_prefix (search_best_node ?c p best') = Some q \<and>
                 search_best_node ?c p best' \<in> set (radix_walk ?t) \<and>
                 (\<forall>q'\<in>set (prefixes_of ?t). prefix_contains q' p \<longrightarrow> bitlen q' \<le> bitlen q)"
        using qin q(2,3) win mx by blast
      with ex show ?thesis unfolding eq by (simp only: if_True)
    qed
  qed
qed

text \<open>\<^verbatim>\<open>Radix_search_best\<close> on the bits alone: the longest stored prefix whose
  significant bits are a prefix of the query's address, whatever the families.\<close>

lemma Radix_search_best_bits:
  assumes "args_to_prefix lib a = Inr p" and "state_inv lib s"
  shows "if list_ex (\<lambda>q. prefix_contains q p) (prefixes_of (head (rt (radix s))))
         then (\<exists>q k. q \<in> set (prefixes_of (head (rt (radix s)))) \<and> prefix_contains q p \<and>
                 (\<forall>q'\<in>set (prefixes_of (head (rt (radix s)))).
                     prefix_contains q' p \<longrightarrow> bitlen q' \<le> bitlen q) \<and>
                 Radix_search_best lib a s = (Inr (Some k), s) \<and>
                 (\<exists>n\<in>set (radix_walk (head (rt (radix s)))).
                     node_prefix n = Some q \<and> node_data n = Some k) \<and>
                 k < length (objs s) \<and> prefix (objs s ! k) = prefix_ntop lib q \<and>
                 prefixlen (objs s ! k) = int (bitlen q) \<and> node_family (objs s ! k) = family q)
         else Radix_search_best lib a s = (Inr None, s)"
proof -
  let ?h = "head (rt (radix s))"
  let ?n = "search_best_node ?h p NULL"
  from assms(2) have inv: "radix_inv ?h" and hs: "all_nodes (handle_ok lib (objs s)) ?h"
    by (simp_all add: state_inv_def)
  note sb = search_best_node_correct[OF inv, of NULL p]
  show ?thesis
  proof (cases "\<exists>q\<in>set (prefixes_of ?h). prefix_contains q p")
    case False
    with sb have "?n = NULL" by simp
    with assms(1) have "Radix_search_best lib a s = (Inr None, s)"
      by (simp add: Radix_search_best_def radix_search_best_def)
    with False show ?thesis by (simp add: list_ex_iff)
  next
    case True
    with sb obtain q where q: "q \<in> set (prefixes_of ?h)" "prefix_contains q p"
      "node_prefix ?n = Some q" "?n \<in> set (radix_walk ?h)"
      "\<forall>q'\<in>set (prefixes_of ?h). prefix_contains q' p \<longrightarrow> bitlen q' \<le> bitlen q"
      by auto
    from all_nodes_walk[OF hs q(4)] q(3) have "handle_ok lib (objs s) (Some q) (node_data ?n)"
      by simp
    then obtain k where k: "node_data ?n = Some k" and ok: "handle_ok lib (objs s) (Some q) (Some k)"
      by (cases "node_data ?n") (auto simp: handle_ok_def)
    from q(3) have "?n \<noteq> NULL" by auto
    with assms(1) k have res: "Radix_search_best lib a s = (Inr (Some k), s)"
      by (simp add: Radix_search_best_def radix_search_best_def)
    from q(3,4) k have "\<exists>n\<in>set (radix_walk ?h). node_prefix n = Some q \<and> node_data n = Some k"
      by blast
    with q(1,2,5) res ok
    have "\<exists>q k. q \<in> set (prefixes_of ?h) \<and> prefix_contains q p \<and>
                 (\<forall>q'\<in>set (prefixes_of ?h). prefix_contains q' p \<longrightarrow> bitlen q' \<le> bitlen q) \<and>
                 Radix_search_best lib a s = (Inr (Some k), s) \<and>
                 (\<exists>n\<in>set (radix_walk ?h). node_prefix n = Some q \<and> node_data n = Some k) \<and>
                 k < length (objs s) \<and> prefix (objs s ! k) = prefix_ntop lib q \<and>
                 prefixlen (objs s ! k) = int (bitlen q) \<and> node_family (objs s ! k) = family q"
      by (auto simp: handle_ok_def)
    moreover from True have "list_ex (\<lambda>q. prefix_contains q p) (prefixes_of ?h)"
      by (simp add: list_ex_iff)
    ultimately show ?thesis by (simp only: if_True)
  qed
qed

lemma arg_10_1_2_3: "args_to_prefix example_h (text_arg ''10.1.2.3'') = Inr pfx_10_1_2_3"
  by code_simp

lemma state_10_16_inv:
  "state_inv example_h (snd (Radix_add example_h (text_arg ''10.1.0.0/16'') state_10_8))"
  by code_simp

lemma state_10_16_best:
  "Radix_search_best example_h (text_arg ''10.1.2.3'')
     (snd (Radix_add example_h (text_arg ''10.1.0.0/16'') state_10_8)) =
   (Inr (Some 1), snd (Radix_add example_h (text_arg ''10.1.0.0/16'') state_10_8))"
  by code_simp

lemma state_10_16_objs:
  "prefix (objs (snd (Radix_add example_h (text_arg ''10.1.0.0/16'') state_10_8)) ! 1) =
     ''10.1.0.0/16''"
  by code_simp

text \<open>
  Claim C1, as amended. On a state of the invariant \<open>state_inv\<close>, for a query \<open>p\<close> of
  the family of the tree (or on a tree without a family): when some stored network
  contains \<open>p\<close>, \<^verbatim>\<open>search_best\<close> returns the node object of a data node of the tree
  whose prefix \<open>q\<close> contains \<open>p\<close> and is at least as long as every stored prefix that
  contains \<open>p\<close>; when none does, it returns \<^verbatim>\<open>None\<close>. The state is unchanged.
\<close>

theorem search_best_same_family:
  assumes "args_to_prefix lib a = Inr p" and "state_inv lib s"
    and "tree_family (radix s) = None \<or> tree_family (radix s) = Some (family p)"
  shows "if list_ex (\<lambda>q. network_contains q p) (prefixes_of (head (rt (radix s))))
         then (\<exists>q k. q \<in> set (prefixes_of (head (rt (radix s)))) \<and> network_contains q p \<and>
                 (\<forall>q'\<in>set (prefixes_of (head (rt (radix s)))).
                     network_contains q' p \<longrightarrow> bitlen q' \<le> bitlen q) \<and>
                 Radix_search_best lib a s = (Inr (Some k), s) \<and>
                 (\<exists>n\<in>set (radix_walk (head (rt (radix s)))).
                     node_prefix n = Some q \<and> node_data n = Some k) \<and>
                 k < length (objs s) \<and> prefix (objs s ! k) = prefix_ntop lib q \<and>
                 prefixlen (objs s ! k) = int (bitlen q) \<and> node_family (objs s ! k) = family q)
         else Radix_search_best lib a s = (Inr None, s)"
proof -
  let ?K = "prefixes_of (head (rt (radix s)))"
  have same: "network_contains q p = prefix_contains q p" if "q \<in> set ?K" for q
  proof -
    from state_inv_stored(2)[OF assms(2) that] assms(3) have "family q = family p" by auto
    then show ?thesis by (simp add: network_contains_def)
  qed
  then have ex: "list_ex (\<lambda>q. network_contains q p) ?K = list_ex (\<lambda>q. prefix_contains q p) ?K"
    by (auto simp: list_ex_iff)
  show ?thesis
  proof (cases "list_ex (\<lambda>q. prefix_contains q p) ?K")
    case False
    with Radix_search_best_bits[OF assms(1,2)] have "Radix_search_best lib a s = (Inr None, s)"
      by (simp only: if_False)
    with False ex show ?thesis by (simp only: if_False)
  next
    case True
    with Radix_search_best_bits[OF assms(1,2)] obtain q k where
      q: "q \<in> set ?K" "prefix_contains q p"
      and mx: "\<forall>q'\<in>set ?K. prefix_contains q' p \<longrightarrow> bitlen q' \<le> bitlen q"
      and res: "Radix_search_best lib a s = (Inr (Some k), s)"
      and nd: "\<exists>n\<in>set (radix_walk (head (rt (radix s)))).
                 node_prefix n = Some q \<and> node_data n = Some k"
      and ob: "k < length (objs s)" "prefix (objs s ! k) = prefix_ntop lib q"
        "prefixlen (objs s ! k) = int (bitlen q)" "node_family (objs s ! k) = family q"
      by (simp only: if_True) blast
    from q same have q': "network_contains q p" by simp
    from mx same have mx': "\<forall>q'\<in>set ?K. network_contains q' p \<longrightarrow> bitlen q' \<le> bitlen q"
      by simp
    from q(1) q' mx' res nd ob
    have "\<exists>q k. q \<in> set ?K \<and> network_contains q p \<and>
                 (\<forall>q'\<in>set ?K. network_contains q' p \<longrightarrow> bitlen q' \<le> bitlen q) \<and>
                 Radix_search_best lib a s = (Inr (Some k), s) \<and>
                 (\<exists>n\<in>set (radix_walk (head (rt (radix s)))).
                     node_prefix n = Some q \<and> node_data n = Some k) \<and>
                 k < length (objs s) \<and> prefix (objs s ! k) = prefix_ntop lib q \<and>
                 prefixlen (objs s ! k) = int (bitlen q) \<and> node_family (objs s ! k) = family q"
      by blast
    with True ex show ?thesis by (simp only: if_True)
  qed
qed

lemma state_10_16_family:
  "tree_family (radix (snd (Radix_add example_h (text_arg ''10.1.0.0/16'') state_10_8))) =
     Some (family pfx_10_1_2_3)"
  by code_simp

lemma state_10_16_contains:
  "list_ex (\<lambda>q. network_contains q pfx_10_1_2_3)
     (prefixes_of (head (rt (radix (snd (Radix_add example_h (text_arg ''10.1.0.0/16'')
        state_10_8))))))"
  by code_simp

theorem search_best_same_family_witness:
  "args_to_prefix example_h (text_arg ''10.1.2.3'') = Inr pfx_10_1_2_3 \<and>
   state_inv example_h (snd (Radix_add example_h (text_arg ''10.1.0.0/16'') state_10_8)) \<and>
   tree_family (radix (snd (Radix_add example_h (text_arg ''10.1.0.0/16'') state_10_8))) =
     Some (family pfx_10_1_2_3) \<and>
   list_ex (\<lambda>q. network_contains q pfx_10_1_2_3)
     (prefixes_of (head (rt (radix (snd (Radix_add example_h (text_arg ''10.1.0.0/16'')
        state_10_8)))))) \<and>
   (\<exists>q. network_contains q pfx_10_1_2_3 \<and>
        prefix (objs (snd (Radix_add example_h (text_arg ''10.1.0.0/16'') state_10_8)) ! 1) =
          prefix_ntop example_h q) \<and>
   prefix (objs (snd (Radix_add example_h (text_arg ''10.1.0.0/16'') state_10_8)) ! 1) =
     ''10.1.0.0/16''"
proof -
  let ?s = "snd (Radix_add example_h (text_arg ''10.1.0.0/16'') state_10_8)"
  have h: "tree_family (radix ?s) = None \<or> tree_family (radix ?s) = Some (family pfx_10_1_2_3)"
    using state_10_16_family by simp
  from search_best_same_family[OF arg_10_1_2_3 state_10_16_inv h] state_10_16_contains
  have "\<exists>q k. network_contains q pfx_10_1_2_3 \<and>
          Radix_search_best example_h (text_arg ''10.1.2.3'') ?s = (Inr (Some k), ?s) \<and>
          prefix (objs ?s ! k) = prefix_ntop example_h q"
    by (simp only: if_True) blast
  then have "\<exists>q. network_contains q pfx_10_1_2_3 \<and> prefix (objs ?s ! 1) = prefix_ntop example_h q"
    by (auto simp only: state_10_16_best)
  then show ?thesis
    using arg_10_1_2_3 state_10_16_inv state_10_16_family state_10_16_contains state_10_16_objs
    by (intro conjI)
qed

text \<open>
  Claim C1 as stated fails for a query of the other family: \<^verbatim>\<open>Radix_search_best\<close>
  compares no families, and the walk goes by the bits alone. On the IPv4 tree holding
  10.0.0.0/8 the IPv6 address a00::1, whose first byte is 10, is in no stored network,
  and \<^verbatim>\<open>search_best\<close> returns the entry of 10.0.0.0/8 instead of \<^verbatim>\<open>None\<close>.
\<close>

theorem search_best_other_family:
  "args_to_prefix example_h (text_arg ''a00::1'') = Inr pfx_a00_1 \<and>
   family pfx_a00_1 = AF_INET6 \<and> tree_family (radix state_10_8) = Some AF_INET \<and>
   state_inv example_h state_10_8 \<and>
   \<not> list_ex (\<lambda>q. network_contains q pfx_a00_1) (prefixes_of (head (rt (radix state_10_8)))) \<and>
   Radix_search_best example_h (text_arg ''a00::1'') state_10_8 = (Inr (Some 0), state_10_8)"
  by code_simp

section \<open>Removing a prefix, and the states that can be reached\<close>

lemma radix_inv_shrink:
  assumes "radix_inv (Node b pfx l r dat)" and "radix_inv l'" and "radix_inv r'"
    and "set (prefixes_of l') \<subseteq> set (prefixes_of l)"
    and "set (prefixes_of r') \<subseteq> set (prefixes_of r)"
    and "case pfx' of None \<Rightarrow> l' \<noteq> NULL \<and> r' \<noteq> NULL \<and> dat' = None | Some q \<Rightarrow> pfx = Some q"
  shows "radix_inv (Node b pfx' l' r' dat')"
proof -
  from assms(1) have L: "\<forall>q\<in>set (prefixes_of l). b < bitlen q \<and> \<not> addr_bit (add q) b"
    and R: "\<forall>q\<in>set (prefixes_of r). b < bitlen q \<and> addr_bit (add q) b"
    and own: "\<And>q. pfx = Some q \<Longrightarrow> bitlen q = b"
    and PW: "\<forall>q\<in>set (prefixes_of (Node b pfx l r dat)).
        \<forall>q'\<in>set (prefixes_of (Node b pfx l r dat)). comp_with_mask (add q) (add q') b"
    by (auto simp: radix_inv_Node)
  have sub: "set (prefixes_of (Node b pfx' l' r' dat')) \<subseteq> set (prefixes_of (Node b pfx l r dat))"
    using assms(4-6) by (auto simp: set_prefixes_of_Node split: option.splits)
  have "\<forall>q\<in>set (prefixes_of (Node b pfx' l' r' dat')).
        \<forall>q'\<in>set (prefixes_of (Node b pfx' l' r' dat')). comp_with_mask (add q) (add q') b"
    using PW sub by blast
  moreover have "case pfx' of None \<Rightarrow> l' \<noteq> NULL \<and> r' \<noteq> NULL \<and> dat' = None | Some q \<Rightarrow> bitlen q = b"
    using assms(6) own by (auto split: option.splits)
  moreover have "\<forall>q\<in>set (prefixes_of l'). b < bitlen q \<and> \<not> addr_bit (add q) b"
    using L assms(4) by blast
  moreover have "\<forall>q\<in>set (prefixes_of r'). b < bitlen q \<and> addr_bit (add q) b"
    using R assms(5) by blast
  ultimately show ?thesis using assms(2,3) by (simp only: radix_inv_Node simp_thms)
qed

lemma remove_node_inv:
  "radix_inv t \<Longrightarrow>
   radix_inv (remove_node t p) \<and> set (prefixes_of (remove_node t p)) \<subseteq> set (prefixes_of t)"
proof (induction t)
  case NULL
  then show ?case by simp
next
  case (Node b pfx l r dat)
  let ?t = "Node b pfx l r dat"
  from Node.prems have inv: "radix_inv l" "radix_inv r"
    and glue: "pfx = None \<Longrightarrow> l \<noteq> NULL \<and> r \<noteq> NULL \<and> dat = None"
    by (auto simp: radix_inv_Node)
  note IHl = Node.IH(1)[OF inv(1)] and IHr = Node.IH(2)[OF inv(2)]
  have keep: "\<And>l' r'. radix_inv l' \<Longrightarrow> radix_inv r' \<Longrightarrow>
      set (prefixes_of l') \<subseteq> set (prefixes_of l) \<Longrightarrow> set (prefixes_of r') \<subseteq> set (prefixes_of r) \<Longrightarrow>
      (pfx = None \<Longrightarrow> l' \<noteq> NULL \<and> r' \<noteq> NULL) \<Longrightarrow> radix_inv (Node b pfx l' r' dat)"
    using glue by (auto intro!: radix_inv_shrink[OF Node.prems] split: option.splits)
  have subl: "set (prefixes_of l) \<subseteq> set (prefixes_of ?t)"
    and subr: "set (prefixes_of r) \<subseteq> set (prefixes_of ?t)"
    by (auto simp: set_prefixes_of_Node)
  show ?case
  proof (cases "b < bitlen p")
    case True
    show ?thesis
    proof (cases "addr_bit (add p) b")
      case bit: True
      let ?r' = "remove_node r p"
      have res: "remove_node ?t p = compact (Node b pfx l ?r' dat)" using True bit by simp
      show ?thesis
      proof (cases "pfx = None \<and> ?r' = NULL")
        case True
        with glue have "compact (Node b pfx l ?r' dat) = l" by simp
        with res inv subl show ?thesis by simp
      next
        case False
        with glue have c: "compact (Node b pfx l ?r' dat) = Node b pfx l ?r' dat" by auto
        from False glue have "pfx = None \<Longrightarrow> l \<noteq> NULL \<and> ?r' \<noteq> NULL" by simp
        from keep[OF inv(1) _ _ _ this] IHr have "radix_inv (Node b pfx l ?r' dat)" by simp
        moreover have "set (prefixes_of (Node b pfx l ?r' dat)) \<subseteq> set (prefixes_of ?t)"
          using IHr by (auto simp: set_prefixes_of_Node)
        ultimately show ?thesis using res c by simp
      qed
    next
      case bit: False
      let ?l' = "remove_node l p"
      have res: "remove_node ?t p = compact (Node b pfx ?l' r dat)" using True bit by simp
      show ?thesis
      proof (cases "pfx = None \<and> ?l' = NULL")
        case True
        with glue have "compact (Node b pfx ?l' r dat) = r" by simp
        with res inv subr show ?thesis by simp
      next
        case False
        with glue have c: "compact (Node b pfx ?l' r dat) = Node b pfx ?l' r dat" by auto
        from False glue have "pfx = None \<Longrightarrow> ?l' \<noteq> NULL \<and> r \<noteq> NULL" by simp
        from keep[OF _ inv(2) _ _ this] IHl have "radix_inv (Node b pfx ?l' r dat)" by simp
        moreover have "set (prefixes_of (Node b pfx ?l' r dat)) \<subseteq> set (prefixes_of ?t)"
          using IHl by (auto simp: set_prefixes_of_Node)
        ultimately show ?thesis using res c by simp
      qed
    qed
  next
    case False
    show ?thesis
    proof (cases "\<exists>q. pfx = Some q \<and> prefix_eq q p")
      case nomatch: False
      with False have "remove_node ?t p = ?t" by (auto split: option.splits)
      with Node.prems show ?thesis by simp
    next
      case True
      then obtain q where q: "pfx = Some q" "prefix_eq q p" by blast
      show ?thesis
      proof (cases "l \<noteq> NULL \<and> r \<noteq> NULL")
        case both: True
        with False q have res: "remove_node ?t p = Node b None l r None" by simp
        have "radix_inv (Node b None l r None)"
          by (rule radix_inv_shrink[OF Node.prems inv]) (use both in simp_all)
        with res show ?thesis by (auto simp: set_prefixes_of_Node)
      next
        case one: False
        with False q have "remove_node ?t p = (if r \<noteq> NULL then r else l)" by auto
        with inv subl subr show ?thesis by simp
      qed
    qed
  qed
qed

lemma compact_all_nodes: "all_nodes P t \<Longrightarrow> all_nodes P (compact t)"
  by (cases t) auto

lemma remove_node_all_nodes:
  "all_nodes P t \<Longrightarrow> P None None \<Longrightarrow> all_nodes P (remove_node t p)"
proof (induction t)
  case NULL
  then show ?case by simp
next
  case (Node b pfx l r dat)
  show ?case
  proof (cases "b < bitlen p")
    case True
    show ?thesis
    proof (cases "addr_bit (add p) b")
      case bit: True
      from Node have "all_nodes P (Node b pfx l (remove_node r p) dat)" by simp
      from compact_all_nodes[OF this] True bit show ?thesis by (simp del: compact.simps)
    next
      case bit: False
      from Node have "all_nodes P (Node b pfx (remove_node l p) r dat)" by simp
      from compact_all_nodes[OF this] True bit show ?thesis by (simp del: compact.simps)
    qed
  next
    case False
    with Node.prems show ?thesis by (auto split: option.splits)
  qed
qed

lemma search_exact_node_prefix:
  "search_exact_node t p \<noteq> NULL \<Longrightarrow>
   \<exists>q. node_prefix (search_exact_node t p) = Some q \<and> prefix_eq q p"
  by (induction t) (auto split: if_splits option.splits)

lemma handle_ok_rn:
  "handle_ok lib os pfx dat \<Longrightarrow> handle_ok lib (os[k := (os ! k)\<lparr>rn := x\<rparr>]) pfx dat"
  by (cases "k < length os") (auto simp: handle_ok_def nth_list_update split: option.splits)

lemma args_to_prefix_valid:
  "parsers_valid lib \<Longrightarrow> args_to_prefix lib a = Inr p \<Longrightarrow> valid_prefix p"
  by (auto simp: parsers_valid_def args_to_prefix_def split: option.splits)

lemma state_inv_add:
  assumes "parsers_valid lib" and "state_inv lib s"
  shows "state_inv lib (snd (Radix_add lib a s))"
proof (cases "args_to_prefix lib a")
  case (Inl e)
  with assms(2) show ?thesis by (simp add: Radix_add_def)
next
  case (Inr p)
  show ?thesis
  proof (cases "tree_family (radix s) = None \<or> tree_family (radix s) = Some (family p)")
    case True
    from Radix_add_valid[OF Inr args_to_prefix_valid[OF assms(1) Inr] assms(2) True]
    show ?thesis by auto
  next
    case False
    with Inr assms(2) show ?thesis by (auto simp: Radix_add_def)
  qed
qed

lemma state_inv_delete:
  assumes "state_inv lib s"
  shows "state_inv lib (snd (Radix_delete lib a s))"
proof (cases "args_to_prefix lib a")
  case (Inl e)
  with assms show ?thesis by (simp add: Radix_delete_def)
next
  case (Inr p)
  let ?h = "head (rt (radix s))"
  let ?n = "search_exact_node ?h p"
  show ?thesis
  proof (cases "?n = NULL")
    case True
    with Inr assms show ?thesis by (simp add: Radix_delete_def radix_search_exact_def)
  next
    case False
    from search_exact_node_prefix[OF False] obtain q where q: "node_prefix ?n = Some q" by blast
    define os where "os = (case node_data ?n of None \<Rightarrow> objs s
                           | Some k \<Rightarrow> (objs s)[k := (objs s ! k)\<lparr>rn := None\<rparr>])"
    from Inr False q
    have res: "snd (Radix_delete lib a s) =
      s\<lparr>objs := os, radix := (radix s)\<lparr>rt := (rt (radix s))\<lparr>head := remove_node ?h q,
            count := count (rt (radix s)) - 1\<rparr>, gen_id := gen_id (radix s) + 1\<rparr>\<rparr>"
      by (simp add: Radix_delete_def radix_search_exact_def radix_remove_def Let_def os_def)
    from assms have inv: "radix_inv ?h" and hs: "all_nodes (handle_ok lib (objs s)) ?h"
      and ks: "\<forall>q\<in>set (prefixes_of ?h). valid_prefix q \<and> tree_family (radix s) = Some (family q)"
      by (simp_all add: state_inv_def list_all_iff)
    have "all_nodes (handle_ok lib os) ?h"
      using hs by (rule all_nodes_mono) (auto simp: os_def handle_ok_rn split: option.splits)
    then have "all_nodes (handle_ok lib os) (remove_node ?h q)"
      by (rule remove_node_all_nodes) (simp add: handle_ok_def)
    with remove_node_inv[OF inv, of q] ks res show ?thesis
      by (auto simp: state_inv_def list_all_iff)
  qed
qed

lemma state_inv_run:
  "parsers_valid lib \<Longrightarrow> state_inv lib s \<Longrightarrow> state_inv lib (run_mutations lib ms s)"
proof (induction ms arbitrary: s)
  case Nil
  then show ?case by simp
next
  case (Cons m ms)
  from Cons.prems have "state_inv lib (snd (mutate lib m s))"
    by (cases m) (simp_all add: state_inv_add state_inv_delete)
  with Cons.IH Cons.prems(1) show ?case by simp
qed

lemma state_inv_reachable:
  "parsers_valid lib \<Longrightarrow> state_inv lib (run_mutations lib ms radix_Radix)"
  by (rule state_inv_run[OF _ state_inv_new])

lemma example_h_valid: "parsers_valid example_h"
proof -
  have "valid_prefix pfx_10_8" "valid_prefix pfx_10_1_16" "valid_prefix pfx_10_1_2_3"
    "valid_prefix pfx_11_8" "valid_prefix pfx_v6_0" "valid_prefix pfx_a00_1" by code_simp+
  then show ?thesis
    by (auto simp: parsers_valid_def example_h_def example_pton_def split: if_splits)
qed

section \<open>The family of a tree\<close>

lemma Radix_add_node_family:
  "tree_family (radix (snd (Radix_add_node lib p s))) = tree_family (radix s)"
  by (simp add: Radix_add_node_def Let_def split: option.splits prod.splits)

lemma Radix_delete_family:
  "tree_family (radix (snd (Radix_delete lib a s))) = tree_family (radix s)"
  by (simp add: Radix_delete_def Let_def split: sum.splits)

text \<open>
  Claim C4. A new tree has no family. An \<^verbatim>\<open>add\<close> on a tree without a family binds the
  family of its prefix; once a family is bound, no \<^verbatim>\<open>add\<close> and no \<^verbatim>\<open>delete\<close> changes
  it, and an \<^verbatim>\<open>add\<close> of a prefix of the other family raises the \<^verbatim>\<open>ValueError\<close>
  "Mixing IPv4 and IPv6 in a single tree is not supported" and returns the state as it
  was: root, count, generation and node objects are unchanged.
\<close>

theorem Radix_add_family_mismatch:
  assumes "args_to_prefix lib a = Inr p"
  shows "tree_family (radix radix_Radix) = None \<and>
         (tree_family (radix s) = None \<longrightarrow>
            tree_family (radix (snd (Radix_add lib a s))) = Some (family p)) \<and>
         (\<forall>f. tree_family (radix s) = Some f \<longrightarrow>
            tree_family (radix (snd (Radix_add lib a s))) = Some f \<and>
            tree_family (radix (snd (Radix_delete lib a' s))) = Some f \<and>
            (family p \<noteq> f \<longrightarrow>
               Radix_add lib a s =
                 (Inl (ValueError ''Mixing IPv4 and IPv6 in a single tree is not supported''), s)))"
  using assms
  by (auto simp: Radix_add_def Radix_add_node_family Radix_delete_family radix_Radix_def
      newRadixObject_def)

theorem Radix_add_family_mismatch_witness:
  "args_to_prefix example_h (text_arg ''::/0'') = Inr pfx_v6_0 \<and>
   tree_family (radix radix_Radix) = None \<and>
   tree_family (radix (snd (Radix_add example_h (text_arg ''::/0'') radix_Radix))) = Some AF_INET6 \<and>
   tree_family (radix state_10_8) = Some AF_INET \<and> family pfx_v6_0 \<noteq> AF_INET \<and>
   Radix_add example_h (text_arg ''::/0'') state_10_8 =
     (Inl (ValueError ''Mixing IPv4 and IPv6 in a single tree is not supported''), state_10_8)"
proof -
  have f6: "family pfx_v6_0 = AF_INET6" by (simp add: pfx_v6_0_def)
  have none: "tree_family (radix radix_Radix) = None"
    by (simp add: radix_Radix_def newRadixObject_def)
  from Radix_add_family_mismatch[OF arg_v6_0, of radix_Radix] none
  have 1: "tree_family (radix (snd (Radix_add example_h (text_arg ''::/0'') radix_Radix))) =
           Some AF_INET6"
    by (simp add: f6)
  from Radix_add_family_mismatch[OF arg_v6_0, of state_10_8] state_10_8_family
  have 2: "Radix_add example_h (text_arg ''::/0'') state_10_8 =
     (Inl (ValueError ''Mixing IPv4 and IPv6 in a single tree is not supported''), state_10_8)"
    by (simp add: f6)
  from 1 2 none arg_v6_0 state_10_8_family f6 show ?thesis by simp
qed

section \<open>The generation counter\<close>

lemma Radix_add_node_gen:
  "gen_id (radix (snd (Radix_add_node lib p s))) =
     gen_id (radix s) + (if isl (fst (Radix_add_node lib p s)) then 0 else 1)"
  by (simp add: Radix_add_node_def Let_def split: option.splits prod.splits)

lemma Radix_add_gen:
  "gen_id (radix (snd (Radix_add lib a s))) =
     gen_id (radix s) + (if isl (fst (Radix_add lib a s)) then 0 else 1)"
  by (simp add: Radix_add_def Radix_add_node_gen split: sum.splits)

lemma Radix_delete_gen:
  "gen_id (radix (snd (Radix_delete lib a s))) =
     gen_id (radix s) + (if isl (fst (Radix_delete lib a s)) then 0 else 1)"
  by (simp add: Radix_delete_def Let_def split: sum.splits)

lemma mutate_gen:
  "gen_id (radix (snd (mutate lib m s))) =
     gen_id (radix s) + (if fst (mutate lib m s) then 1 else 0)"
  by (cases m) (simp_all add: Radix_add_gen Radix_delete_gen)

lemma run_mutations_gen:
  "gen_id (radix (run_mutations lib ms s)) = gen_id (radix s) + of_nat (successes lib ms s)"
  by (induction ms arbitrary: s) (simp_all add: mutate_gen)

lemma do_read_radix: "radix (fst (do_read lib x c)) = radix (fst c)"
  by (cases x; cases c)
     (simp_all add: Radix_search_exact_def Radix_search_best_def Radix_nodes_def
        Radix_prefixes_def RadixIter_iternext_def Let_def split: sum.splits prod.splits)

lemma do_reads_radix: "radix (fst (do_reads lib xs c)) = radix (fst c)"
  by (induction xs arbitrary: c) (simp_all add: do_read_radix)

text \<open>
  Claim C9. No sequence of the reading calls \<^verbatim>\<open>search_exact\<close>, \<^verbatim>\<open>search_best\<close>,
  \<^verbatim>\<open>nodes\<close>, \<^verbatim>\<open>prefixes\<close> and advances of an iterator changes the generation counter (nor
  any other field of the tree object); an \<^verbatim>\<open>add\<close> or a \<^verbatim>\<open>delete\<close> increments it by one
  when it succeeds and leaves it when it raises.
\<close>

theorem reads_keep_generation:
  "gen_id (radix (fst (do_reads lib xs (s, it)))) = gen_id (radix s) \<and>
   radix (fst (do_reads lib xs (s, it))) = radix s \<and>
   gen_id (radix (snd (Radix_add lib a s))) =
     gen_id (radix s) + (if isl (fst (Radix_add lib a s)) then 0 else 1) \<and>
   gen_id (radix (snd (Radix_delete lib a s))) =
     gen_id (radix s) + (if isl (fst (Radix_delete lib a s)) then 0 else 1)"
  by (simp add: do_reads_radix Radix_add_gen Radix_delete_gen)

lemma iter_advance_gen:
  "iter_advance it = Some it' \<Longrightarrow> iter_gen_id it' = iter_gen_id it"
  by (auto simp: iter_advance_def split: radix_node.splits if_splits list.splits)

lemma iter_again_gen: "iter_gen_id (snd (iter_again it)) = iter_gen_id it"
proof (induction it rule: iter_again.induct)
  case (1 self)
  show ?case
  proof (cases "iter_rn self")
    case NULL
    then show ?thesis by (simp add: iter_again.simps[of self])
  next
    case (Node b pfx l r dat)
    show ?thesis
    proof (cases "iter_advance self")
      case None
      with Node show ?thesis by (simp add: iter_again.simps[of self])
    next
      case (Some it')
      show ?thesis
      proof (cases "pfx = None \<or> dat = None")
        case True
        with Node Some "1.IH"[OF Node Some True] iter_advance_gen[OF Some] show ?thesis
          by (simp add: iter_again.simps[of self])
      next
        case False
        with Node Some iter_advance_gen[OF Some] show ?thesis
          by (auto simp: iter_again.simps[of self])
      qed
    qed
  qed
qed

lemma iternext_gen:
  "iter_gen_id (fst (snd (RadixIter_iternext it s))) = iter_gen_id it \<and>
   snd (snd (RadixIter_iternext it s)) = s"
  by (simp add: RadixIter_iternext_def iter_again_gen)

lemma run_event_gen:
  "gen_id (radix (fst (run_event lib e c))) =
     gen_id (radix (fst c)) + of_nat (performed lib [e] c) \<and>
   iter_gen_id (snd (run_event lib e c)) = iter_gen_id (snd c)"
proof (cases c)
  case (Pair s it)
  show ?thesis
  proof (cases e)
    case (Call m)
    with Pair show ?thesis by (simp add: mutate_gen)
  next
    case Advance
    with Pair show ?thesis by (simp add: iternext_gen)
  qed
qed

lemma performed_Cons:
  "performed lib (e # es) c = performed lib [e] c + performed lib es (run_event lib e c)"
  by (cases e) simp_all

lemma run_events_gen:
  "gen_id (radix (fst (run_events lib es c))) =
     gen_id (radix (fst c)) + of_nat (performed lib es c) \<and>
   iter_gen_id (snd (run_events lib es c)) = iter_gen_id (snd c)"
proof (induction es arbitrary: c)
  case Nil
  show ?case by simp
next
  case (Cons e es)
  from Cons[of "run_event lib e c"] run_event_gen[of lib e c] show ?case
    by (simp only: run_events.simps performed_Cons[of lib e es c] of_nat_add add.assoc)
qed

lemma new_iter_gen: "iter_gen_id (snd (new_iter s)) = gen_id (radix (fst (new_iter s)))"
  by (simp add: new_iter_def newRadixIterObject_def Py_INCREF_def)

text \<open>
  Claim C5, as amended. Take any iterator, at its creation, and any sequence of calls
  of \<^verbatim>\<open>add\<close> and \<^verbatim>\<open>delete\<close> on its tree and of advances of the iterator after that. If the
  number of inserts and deletes performed (the calls that returned without raising) is
  not a multiple of \<open>2 ^ 32\<close> (so: at least one, and not \<open>2 ^ 32\<close> or a multiple of it),
  the next advance raises "Radix tree modified during iteration" and returns no entry:
  it compares the generations before anything else, and leaves the iterator and the tree
  as they were.
\<close>

theorem iternext_after_mutation:
  assumes "\<not> 2 ^ 32 dvd performed lib es (new_iter s)"
  shows "RadixIter_iternext (snd (run_events lib es (new_iter s)))
           (fst (run_events lib es (new_iter s))) =
         (Inl (RuntimeWarning ''Radix tree modified during iteration''),
          snd (run_events lib es (new_iter s)), fst (run_events lib es (new_iter s)))"
proof -
  let ?c = "run_events lib es (new_iter s)"
  have "(of_nat (performed lib es (new_iter s)) :: 32 word) \<noteq> 0"
    using assms by (simp add: word_of_nat_eq_0_iff)
  with run_events_gen[of lib es "new_iter s"] new_iter_gen[of s]
  have "iter_gen_id (snd ?c) \<noteq> gen_id (radix (fst ?c))" by simp
  then show ?thesis by (simp add: RadixIter_iternext_def)
qed

lemma one_delete_performed:
  "performed example_h [Advance, Call (Delete (text_arg ''11.0.0.0/8''))] (new_iter state_three) = 1"
  by code_simp

lemma first_advance_three:
  "fst (RadixIter_iternext (snd (new_iter state_three)) (fst (new_iter state_three))) =
     Inr (Some 0)"
  by code_simp

lemma second_advance_three:
  "fst (RadixIter_iternext (snd (run_events example_h [Advance] (new_iter state_three)))
          (fst (run_events example_h [Advance] (new_iter state_three)))) = Inr (Some 2)"
  by code_simp

theorem iternext_after_mutation_witness:
  "\<not> 2 ^ 32 dvd
      performed example_h [Advance, Call (Delete (text_arg ''11.0.0.0/8''))]
        (new_iter state_three) \<and>
   fst (RadixIter_iternext (snd (new_iter state_three)) (fst (new_iter state_three))) =
     Inr (Some 0) \<and>
   fst (RadixIter_iternext (snd (run_events example_h [Advance] (new_iter state_three)))
          (fst (run_events example_h [Advance] (new_iter state_three)))) = Inr (Some 2) \<and>
   fst (RadixIter_iternext
          (snd (run_events example_h [Advance, Call (Delete (text_arg ''11.0.0.0/8''))]
                  (new_iter state_three)))
          (fst (run_events example_h [Advance, Call (Delete (text_arg ''11.0.0.0/8''))]
                  (new_iter state_three)))) =
     Inl (RuntimeWarning ''Radix tree modified during iteration'')"
proof -
  have h: "\<not> 2 ^ 32 dvd
      performed example_h [Advance, Call (Delete (text_arg ''11.0.0.0/8''))]
        (new_iter state_three)"
    by (subst one_delete_performed) simp
  from iternext_after_mutation[OF h]
  have "fst (RadixIter_iternext
          (snd (run_events example_h [Advance, Call (Delete (text_arg ''11.0.0.0/8''))]
                  (new_iter state_three)))
          (fst (run_events example_h [Advance, Call (Delete (text_arg ''11.0.0.0/8''))]
                  (new_iter state_three)))) =
     Inl (RuntimeWarning ''Radix tree modified during iteration'')"
    by (simp only: fst_conv)
  with h first_advance_three second_advance_three show ?thesis by (intro conjI)
qed

section \<open>When the generation counter wraps\<close>

lemma repeated_add:
  assumes "args_to_prefix lib a = Inr p"
  shows "state_inv lib s \<Longrightarrow> q \<in> set (prefixes_of (head (rt (radix s)))) \<Longrightarrow> prefix_eq q p \<Longrightarrow>
         run_mutations lib (replicate n (Add a)) s =
           s\<lparr>radix := (radix s)\<lparr>gen_id := gen_id (radix s) + of_nat n\<rparr>\<rparr> \<and>
         successes lib (replicate n (Add a)) s = n"
proof (induction n arbitrary: s)
  case 0
  then show ?case by simp
next
  case (Suc n)
  let ?s1 = "s\<lparr>radix := (radix s)\<lparr>gen_id := gen_id (radix s) + 1\<rparr>\<rparr>"
  from Radix_add_stored[OF assms Suc.prems] have add: "\<exists>k. Radix_add lib a s = (Inr k, ?s1)"
    by blast
  from Suc.prems(1) have inv1: "state_inv lib ?s1" by (simp add: state_inv_gen)
  from Suc.prems(2) have q1: "q \<in> set (prefixes_of (head (rt (radix ?s1))))" by simp
  from Suc.IH[OF inv1 q1 Suc.prems(3)] add show ?case
    by (auto simp: add.assoc)
qed

lemma iter_state_inv: "state_inv example_h (snd (newRadixIterObject state_10_8))"
  by code_simp

lemma iter_state_stores:
  "pfx_10_8 \<in> set (prefixes_of (head (rt (radix (snd (newRadixIterObject state_10_8))))))"
  by code_simp

lemma iter_state_next:
  "fst (RadixIter_iternext (fst (newRadixIterObject state_10_8))
         (snd (newRadixIterObject state_10_8))) = Inr (Some 0)"
  by code_simp

lemma gen_id_wraps:
  "s\<lparr>radix := (radix s)\<lparr>gen_id := gen_id (radix s) + of_nat (2 ^ 32)\<rparr>\<rparr> = s"
proof -
  have "(of_nat (2 ^ 32) :: 32 word) = 0" using of_nat_2p[where 'a = 32] by simp
  then show ?thesis by simp
qed

lemma run_events_calls:
  "run_events lib (map Call ms) (s, it) = (run_mutations lib ms s, it)"
  by (induction ms arbitrary: s) simp_all

lemma performed_calls: "performed lib (map Call ms) (s, it) = successes lib ms s"
  by (induction ms arbitrary: s) simp_all

text \<open>
  Claim C5 as stated fails when the 32-bit generation counter wraps: after \<open>2 ^ 32\<close>
  calls of \<^verbatim>\<open>add("10.0.0.0/8")\<close> on the tree that holds 10.0.0.0/8, all of them performed,
  the counter is back at the value the iterator took at its creation, and the advance
  returns the entry of 10.0.0.0/8.
\<close>

theorem iternext_not_invalidated:
  "performed example_h (map Call (replicate (2 ^ 32) (Add (text_arg ''10.0.0.0/8''))))
     (new_iter state_10_8) = 2 ^ 32 \<and>
   fst (RadixIter_iternext
          (snd (run_events example_h
                  (map Call (replicate (2 ^ 32) (Add (text_arg ''10.0.0.0/8''))))
                  (new_iter state_10_8)))
          (fst (run_events example_h
                  (map Call (replicate (2 ^ 32) (Add (text_arg ''10.0.0.0/8''))))
                  (new_iter state_10_8)))) =
   Inr (Some 0)"
proof -
  let ?s = "snd (newRadixIterObject state_10_8)"
  let ?it = "fst (newRadixIterObject state_10_8)"
  let ?adds = "replicate (2 ^ 32) (Add (text_arg ''10.0.0.0/8''))"
  from repeated_add[OF arg_10_8 iter_state_inv iter_state_stores prefix_eq_refl, of "2 ^ 32"]
  have run: "run_mutations example_h ?adds ?s =
               ?s\<lparr>radix := (radix ?s)\<lparr>gen_id := gen_id (radix ?s) + of_nat (2 ^ 32)\<rparr>\<rparr>"
    and n: "successes example_h ?adds ?s = 2 ^ 32" by blast+
  from run have "run_mutations example_h ?adds ?s = ?s" by (simp only: gen_id_wraps)
  then have ev: "run_events example_h (map Call ?adds) (new_iter state_10_8) = (?s, ?it)"
    by (simp only: new_iter_def run_events_calls)
  have p: "performed example_h (map Call ?adds) (new_iter state_10_8) = 2 ^ 32"
    by (simp only: new_iter_def performed_calls n)
  have w: "fst (RadixIter_iternext (snd (run_events example_h (map Call ?adds) (new_iter state_10_8)))
                 (fst (run_events example_h (map Call ?adds) (new_iter state_10_8)))) = Inr (Some 0)"
    by (simp only: ev fst_conv snd_conv iter_state_next)
  from p w show ?thesis by (intro conjI)
qed

section \<open>Deleting what is not stored\<close>

lemma Radix_delete_absent:
  assumes "args_to_prefix lib a = Inr p"
    and "\<not> list_ex (\<lambda>q. prefix_eq q p) (prefixes_of (head (rt (radix s))))"
  shows "Radix_delete lib a s = (Inl (KeyError ''no such address''), s)"
  using assms search_exact_node_stored[of "head (rt (radix s))" p]
  by (auto simp: Radix_delete_def radix_search_exact_def Let_def)

text \<open>
  Claim C6. When no stored prefix equals \<open>p\<close> (in family, bitlen and significant bits),
  \<^verbatim>\<open>delete\<close> of \<open>p\<close> raises the \<^verbatim>\<open>KeyError\<close> "no such address" and returns the state as
  it was: count and generation (and everything else) are unchanged.
\<close>

theorem Radix_delete_not_found:
  assumes "args_to_prefix lib a = Inr p"
    and "\<not> list_ex (\<lambda>q. prefix_eq q p) (prefixes_of (head (rt (radix s))))"
  shows "Radix_delete lib a s = (Inl (KeyError ''no such address''), s) \<and>
         count (rt (radix (snd (Radix_delete lib a s)))) = count (rt (radix s)) \<and>
         gen_id (radix (snd (Radix_delete lib a s))) = gen_id (radix s)"
  using Radix_delete_absent[OF assms] by simp

lemma state_10_8_no_11:
  "\<not> list_ex (\<lambda>q. prefix_eq q pfx_11_8) (prefixes_of (head (rt (radix state_10_8))))"
  by code_simp

theorem Radix_delete_not_found_witness:
  "args_to_prefix example_h (text_arg ''11.0.0.0/8'') = Inr pfx_11_8 \<and>
   \<not> list_ex (\<lambda>q. prefix_eq q pfx_11_8) (prefixes_of (head (rt (radix state_10_8)))) \<and>
   Radix_delete example_h (text_arg ''11.0.0.0/8'') state_10_8 =
     (Inl (KeyError ''no such address''), state_10_8)"
  using Radix_delete_not_found[OF arg_11_8 state_10_8_no_11] arg_11_8 state_10_8_no_11
  by (simp only: simp_thms)

lemma Radix_delete_no_mismatch:
  "fst (Radix_delete lib a s) \<noteq>
     Inl (ValueError ''Mixing IPv4 and IPv6 in a single tree is not supported'')"
  by (auto simp: Radix_delete_def args_to_prefix_def Let_def split: option.splits)

text \<open>
  Claim C7, as amended. \<^verbatim>\<open>Radix_delete\<close> compares no families and never raises the
  \<^verbatim>\<open>ValueError\<close> of \<^verbatim>\<open>add\<close> (\<open>Radix_delete_no_mismatch\<close>). On a state of the
  invariant \<open>state_inv\<close> (the stored prefixes are all of the bound family), a
  \<^verbatim>\<open>delete\<close> of a prefix of the other family goes through the exact search, finds
  nothing, raises the \<^verbatim>\<open>KeyError\<close> "no such address" and changes nothing.
\<close>

theorem Radix_delete_other_family:
  assumes "args_to_prefix lib a = Inr p" and "state_inv lib s"
    and "tree_family (radix s) = Some f" and "family p \<noteq> f"
  shows "Radix_delete lib a s = (Inl (KeyError ''no such address''), s) \<and>
         fst (Radix_delete lib a s) \<noteq>
           Inl (ValueError ''Mixing IPv4 and IPv6 in a single tree is not supported'')"
proof -
  have "\<not> list_ex (\<lambda>q. prefix_eq q p) (prefixes_of (head (rt (radix s))))"
    using assms(2-4) by (auto simp: state_inv_def list_all_iff list_ex_iff prefix_eq_def)
  from Radix_delete_absent[OF assms(1) this] show ?thesis by simp
qed

theorem Radix_delete_other_family_witness:
  "args_to_prefix example_h (text_arg ''::/0'') = Inr pfx_v6_0 \<and> state_inv example_h state_10_8 \<and>
   tree_family (radix state_10_8) = Some AF_INET \<and> family pfx_v6_0 \<noteq> AF_INET \<and>
   Radix_delete example_h (text_arg ''::/0'') state_10_8 =
     (Inl (KeyError ''no such address''), state_10_8)"
proof -
  have f6: "family pfx_v6_0 \<noteq> AF_INET" by (simp add: pfx_v6_0_def)
  from Radix_delete_other_family[OF arg_v6_0 state_10_8_inv state_10_8_family f6]
  show ?thesis using arg_v6_0 state_10_8_inv state_10_8_family f6 by (simp only: simp_thms)
qed

text \<open>
  Claim C7 as stated fails: on the IPv4 tree holding 10.0.0.0/8, \<^verbatim>\<open>delete("::/0")\<close> does
  not raise the family mismatch of \<^verbatim>\<open>add\<close>, it raises \<^verbatim>\<open>KeyError\<close>.
\<close>

theorem Radix_delete_no_family_check:
  "tree_family (radix state_10_8) = Some AF_INET \<and>
   args_to_prefix example_h (text_arg ''::/0'') = Inr pfx_v6_0 \<and> family pfx_v6_0 = AF_INET6 \<and>
   fst (Radix_add example_h (text_arg ''::/0'') state_10_8) =
     Inl (ValueError ''Mixing IPv4 and IPv6 in a single tree is not supported'') \<and>
   fst (Radix_delete example_h (text_arg ''::/0'') state_10_8) =
     Inl (KeyError ''no such address'')"
  by code_simp

section \<open>The iterator's reference to its tree\<close>

lemma release_keeps:
  "ob_refcnt (radix s) = n + Suc k \<Longrightarrow>
   release n s = Inr (s\<lparr>radix := (radix s)\<lparr>ob_refcnt := Suc k\<rparr>\<rparr>)"
proof (induction n arbitrary: s)
  case 0
  then show ?case by simp
next
  case (Suc n)
  then show ?case by (simp add: Py_DECREF_def)
qed

text \<open>
  Claim C8, as amended. Creating an iterator takes a counted reference to the tree
  (\<^verbatim>\<open>Py_XINCREF(self->parent)\<close>), so the iterator does extend the lifetime of its tree:
  after every reference that existed before has been released the tree is still alive,
  with the iterator's reference as the only one, and it is deallocated when the
  iterator is (\<^verbatim>\<open>Py_XDECREF(self->parent)\<close> in \<^verbatim>\<open>RadixIter_dealloc\<close>).
\<close>

theorem iterator_owns_reference:
  assumes "0 < ob_refcnt (radix s)"
  shows "ob_refcnt (radix (snd (newRadixIterObject s))) = ob_refcnt (radix s) + 1 \<and>
         release (ob_refcnt (radix s)) (snd (newRadixIterObject s)) =
           Inr (s\<lparr>radix := (radix s)\<lparr>ob_refcnt := 1\<rparr>\<rparr>) \<and>
         RadixIter_dealloc (fst (newRadixIterObject s))
             (s\<lparr>radix := (radix s)\<lparr>ob_refcnt := 1\<rparr>\<rparr>) =
           Inl (Radix_dealloc s)"
proof -
  let ?s' = "snd (newRadixIterObject s)"
  have "ob_refcnt (radix ?s') = ob_refcnt (radix s) + Suc 0"
    by (simp add: newRadixIterObject_def Py_INCREF_def)
  from release_keeps[OF this] show ?thesis
    by (simp add: newRadixIterObject_def Py_INCREF_def RadixIter_dealloc_def Py_DECREF_def
        Radix_dealloc_def)
qed

theorem iterator_owns_reference_witness:
  "0 < ob_refcnt (radix state_10_8) \<and>
   release (ob_refcnt (radix state_10_8)) (snd (newRadixIterObject state_10_8)) =
     Inr (state_10_8\<lparr>radix := (radix state_10_8)\<lparr>ob_refcnt := 1\<rparr>\<rparr>)"
proof -
  have h: "0 < ob_refcnt (radix state_10_8)" by (simp add: state_10_8_def)
  from iterator_owns_reference[OF h] show ?thesis using h by (simp only: simp_thms)
qed

text \<open>
  Claim C8 as stated fails: releasing the one reference held on the tree of 10.0.0.0/8
  deallocates it when no iterator exists, and does not once an iterator has been made.
\<close>

theorem iterator_extends_lifetime:
  "isl (release (ob_refcnt (radix state_10_8)) state_10_8) \<and>
   \<not> isl (release (ob_refcnt (radix state_10_8)) (snd (newRadixIterObject state_10_8)))"
  by code_simp

section \<open>The iterator's stack\<close>

lemma iter_advance_inv:
  assumes "iter_inv H it" and "H \<le> RADIX_MAXBITS + 1"
  shows "\<exists>it'. iter_advance it = Some it' \<and> iter_inv H it'"
  using assms
  by (cases "iter_rn it"; cases "iterstack it")
     (auto simp: iter_advance_def iter_inv_def split: if_splits)

lemma iter_again_inv:
  "iter_inv H it \<Longrightarrow> H \<le> RADIX_MAXBITS + 1 \<Longrightarrow>
   fst (iter_again it) \<noteq> Inl BufferOverrun \<and> iter_inv H (snd (iter_again it))"
proof (induction it rule: iter_again.induct)
  case (1 self)
  show ?case
  proof (cases "iter_rn self")
    case NULL
    with 1 show ?thesis by (simp add: iter_again.simps[of self])
  next
    case (Node b pfx l r dat)
    from iter_advance_inv[OF "1.prems"] obtain it' where
      adv: "iter_advance self = Some it'" and inv': "iter_inv H it'" by blast
    show ?thesis
    proof (cases "pfx = None \<or> dat = None")
      case True
      with Node adv "1.IH"[OF Node adv True inv' "1.prems"(2)] show ?thesis
        by (simp add: iter_again.simps[of self])
    next
      case False
      with Node adv inv' show ?thesis by (auto simp: iter_again.simps[of self])
    qed
  qed
qed

lemma iternext_inv:
  assumes "iter_inv H it" and "H \<le> RADIX_MAXBITS + 1"
  shows "fst (RadixIter_iternext it s) \<noteq> Inl BufferOverrun \<and>
         iter_inv H (fst (snd (RadixIter_iternext it s))) \<and>
         snd (snd (RadixIter_iternext it s)) = s"
  using iter_again_inv[OF assms] assms(1)
  by (simp add: RadixIter_iternext_def)

lemma iterate_inv:
  "iter_inv H it \<Longrightarrow> H \<le> RADIX_MAXBITS + 1 \<Longrightarrow> iter_inv H (iterate n it s)"
proof (induction n arbitrary: it)
  case 0
  then show ?case by simp
next
  case (Suc n)
  obtain res it' s' where eq: "RadixIter_iternext it s = (res, it', s')"
    by (cases "RadixIter_iternext it s") auto
  from iternext_inv[OF Suc.prems, of s] have "iter_inv H it'" and "s' = s"
    by (simp_all add: eq)
  with Suc.IH[OF _ Suc.prems(2)] show ?case by (simp add: eq)
qed

lemma new_iter_inv:
  "node_height (head (rt (radix s))) \<le> H \<Longrightarrow> iter_inv H (fst (newRadixIterObject s))"
  by (simp add: newRadixIterObject_def iter_inv_def)

text \<open>
  Claim C10. Over a tree of depth at most \<^verbatim>\<open>RADIX_MAXBITS\<close> (at most
  \<^verbatim>\<open>RADIX_MAXBITS + 1\<close> nodes on a path), after any number of advances of a new
  iterator the stack holds at most \<^verbatim>\<open>RADIX_MAXBITS + 1\<close> entries, and the next
  advance makes no push past the end of the array.
\<close>

theorem iterstack_in_bounds:
  assumes "node_height (head (rt (radix s))) \<le> RADIX_MAXBITS + 1"
  shows "length (iterstack (iterate n (fst (newRadixIterObject s)) (snd (newRadixIterObject s))))
           \<le> RADIX_MAXBITS + 1 \<and>
         fst (RadixIter_iternext
                (iterate n (fst (newRadixIterObject s)) (snd (newRadixIterObject s)))
                (snd (newRadixIterObject s))) \<noteq> Inl BufferOverrun"
proof -
  let ?it = "iterate n (fst (newRadixIterObject s)) (snd (newRadixIterObject s))"
  have inv: "iter_inv (RADIX_MAXBITS + 1) ?it"
    by (rule iterate_inv[OF new_iter_inv[OF assms]]) simp
  then have "length (iterstack ?it) \<le> RADIX_MAXBITS + 1"
    by (simp add: iter_inv_def)
  with iternext_inv[OF inv, of "snd (newRadixIterObject s)"] show ?thesis by simp
qed

lemma state_three_height: "node_height (head (rt (radix state_three))) \<le> RADIX_MAXBITS + 1"
  by code_simp

lemma state_three_pushed:
  "iterstack (iterate 1 (fst (newRadixIterObject state_three))
                (snd (newRadixIterObject state_three))) =
     [Node 8 (Some pfx_11_8) NULL NULL (Some 1)]"
  by code_simp

theorem iterstack_in_bounds_witness:
  "node_height (head (rt (radix state_three))) \<le> RADIX_MAXBITS + 1 \<and>
   iterstack (iterate 1 (fst (newRadixIterObject state_three))
                (snd (newRadixIterObject state_three))) =
     [Node 8 (Some pfx_11_8) NULL NULL (Some 1)] \<and>
   length (iterstack (iterate 1 (fst (newRadixIterObject state_three))
                        (snd (newRadixIterObject state_three)))) \<le> RADIX_MAXBITS + 1 \<and>
   fst (RadixIter_iternext
          (iterate 1 (fst (newRadixIterObject state_three)) (snd (newRadixIterObject state_three)))
          (snd (newRadixIterObject state_three))) \<noteq> Inl BufferOverrun"
proof -
  from iterstack_in_bounds[OF state_three_height, of 1]
  have "length (iterstack (iterate 1 (fst (newRadixIterObject state_three))
                        (snd (newRadixIterObject state_three)))) \<le> RADIX_MAXBITS + 1"
    and "fst (RadixIter_iternext
          (iterate 1 (fst (newRadixIterObject state_three)) (snd (newRadixIterObject state_three)))
          (snd (newRadixIterObject state_three))) \<noteq> Inl BufferOverrun"
    by blast+
  with state_three_height state_three_pushed show ?thesis by (intro conjI)
qed

end
